theory Spec2Isabelle
  imports Main
begin

section \<open>Strings and regular expressions of the host language\<close>

text \<open>
  A string of the source language is a sequence of UTF-16 code units. A code unit is
  modelled as a natural number; no function below inspects the bound \<open>2 ^ 16\<close>, so every
  statement holds for all sequences of code units. \<open>js\<close> embeds an ASCII literal. The code
  units written as numbers below: 10 line feed, 34 double quote, 39 single quote, 45 \<open>-\<close>, 47 \<open>/\<close>,
  59 \<open>;\<close>, 60 \<open><\<close>, 61 \<open>=\<close>, 62 \<open>>\<close>, 95 \<open>_\<close>, 96 back-tick.
\<close>

type_synonym jsstring = "nat list"

definition js :: "string \<Rightarrow> jsstring" where
  "js s = map of_char s"

text \<open>
  The character classes used by the regular expressions of \<open>extractExecutables.ts\<close>.
  \<open>\s\<close> is the white space and line terminator set of the language (also the set removed by
  \<open>String.prototype.trim\<close>): TAB, LF, VT, FF, CR, SP, NBSP, U+1680, U+2000..U+200A, U+2028, U+2029,
  U+202F, U+205F, U+3000, U+FEFF.
\<close>

definition is_space :: "nat \<Rightarrow> bool" where
  "is_space c \<longleftrightarrow> c \<in> {9, 10, 11, 12, 13, 32, 160, 5760, 8232, 8233, 8239, 8287, 12288, 65279}
     \<or> (8192 \<le> c \<and> c \<le> 8202)"

definition is_digit :: "nat \<Rightarrow> bool" where
  "is_digit c \<longleftrightarrow> 48 \<le> c \<and> c \<le> 57"

definition is_upper :: "nat \<Rightarrow> bool" where
  "is_upper c \<longleftrightarrow> 65 \<le> c \<and> c \<le> 90"

definition is_lower :: "nat \<Rightarrow> bool" where
  "is_lower c \<longleftrightarrow> 97 \<le> c \<and> c \<le> 122"

text \<open>\<open>\w\<close> is \<open>[A-Za-z0-9_]\<close>.\<close>

definition is_word :: "nat \<Rightarrow> bool" where
  "is_word c \<longleftrightarrow> is_upper c \<or> is_lower c \<or> is_digit c \<or> c = 95"

text \<open>\<open>[a-zA-Z0-9_-]\<close>\<close>

definition is_cmd_char :: "nat \<Rightarrow> bool" where
  "is_cmd_char c \<longleftrightarrow> is_lower c \<or> is_upper c \<or> is_digit c \<or> c = 95 \<or> c = 45"

text \<open>\<open>['"]\<close>\<close>

definition is_quote :: "nat \<Rightarrow> bool" where
  "is_quote c \<longleftrightarrow> c = 39 \<or> c = 34"

text \<open>\<open>[;&|\n]\<close>\<close>

definition is_sep :: "nat \<Rightarrow> bool" where
  "is_sep c \<longleftrightarrow> c = 59 \<or> c = 38 \<or> c = 124 \<or> c = 10"

text \<open>\<open>[<>|&;()]\<close>\<close>

definition is_punct :: "nat \<Rightarrow> bool" where
  "is_punct c \<longleftrightarrow> c = 60 \<or> c = 62 \<or> c = 124 \<or> c = 38 \<or> c = 59 \<or> c = 40 \<or> c = 41"

text \<open>\<open>.\<close> matches every code unit except the line terminators LF, CR, U+2028, U+2029.\<close>

definition is_dot :: "nat \<Rightarrow> bool" where
  "is_dot c \<longleftrightarrow> c \<noteq> 10 \<and> c \<noteq> 13 \<and> c \<noteq> 8232 \<and> c \<noteq> 8233"

text \<open>
  A regular expression is modelled by its backtracking matcher: applied to the input from the
  current position on, it returns the rest of the input after every way of matching, in the
  order in which the backtracking engine tries them. The match the engine reports is the
  first one. None of the expressions of the source looks behind the current position.
\<close>

type_synonym matcher = "jsstring \<Rightarrow> jsstring list"

definition lit :: "jsstring \<Rightarrow> matcher" where
  "lit p s = (if take (length p) s = p then [drop (length p) s] else [])"

definition cls :: "(nat \<Rightarrow> bool) \<Rightarrow> matcher" where
  "cls P s = (case s of [] \<Rightarrow> [] | c # r \<Rightarrow> if P c then [r] else [])"

text \<open>\<open>C*\<close>: greedy, the longest run first.\<close>

fun star :: "(nat \<Rightarrow> bool) \<Rightarrow> matcher" where
  "star P [] = [[]]"
| "star P (c # r) = (if P c then star P r @ [c # r] else [c # r])"

text \<open>\<open>C*?\<close>: lazy, the shortest run first.\<close>

fun lazy_star :: "(nat \<Rightarrow> bool) \<Rightarrow> matcher" where
  "lazy_star P [] = [[]]"
| "lazy_star P (c # r) = (c # r) # (if P c then lazy_star P r else [])"

definition seq :: "matcher \<Rightarrow> matcher \<Rightarrow> matcher" where
  "seq m1 m2 s = concat (map m2 (m1 s))"

text \<open>\<open>C+\<close> is \<open>C C*\<close>.\<close>

definition many1 :: "(nat \<Rightarrow> bool) \<Rightarrow> matcher" where
  "many1 P = seq (cls P) (star P)"

text \<open>\<open>R?\<close>: greedy, first with \<open>R\<close>, then without.\<close>

definition opt :: "matcher \<Rightarrow> matcher" where
  "opt m s = m s @ [s]"

definition alt :: "matcher \<Rightarrow> matcher \<Rightarrow> matcher" where
  "alt m1 m2 s = m1 s @ m2 s"

text \<open>\<open>$\<close> without the multiline flag: the end of the input.\<close>

definition eoi :: matcher where
  "eoi s = (if s = [] then [s] else [])"

text \<open>\<open>(?=R)\<close>\<close>

definition lookahead :: "matcher \<Rightarrow> matcher" where
  "lookahead m s = (if m s = [] then [] else [s])"

text \<open>\<open>(R)\<close> followed by an expression that may refer back to the text captured by \<open>R\<close>.\<close>

definition capture :: "matcher \<Rightarrow> (jsstring \<Rightarrow> matcher) \<Rightarrow> matcher" where
  "capture m k s = concat (map (\<lambda>r. k (take (length s - length r) s) r) (m s))"

text \<open>
  The expression matches at index 0. This is \<open>RegExp.prototype.test\<close> for an expression that
  begins with \<open>^\<close>; for the others it says that a match starts at the head of the text.
\<close>

definition test :: "matcher \<Rightarrow> jsstring \<Rightarrow> bool" where
  "test m s \<longleftrightarrow> m s \<noteq> []"

text \<open>
  \<open>String.prototype.replace\<close> with a global expression: the leftmost match is replaced and the
  search resumes where it ended; after an empty match the next code unit is copied.
\<close>

fun replace_all :: "matcher \<Rightarrow> jsstring \<Rightarrow> jsstring \<Rightarrow> jsstring" where
  "replace_all m rep [] = (case m [] of [] \<Rightarrow> [] | r # _ \<Rightarrow> rep)"
| "replace_all m rep (c # s) =
     (case m (c # s) of
        [] \<Rightarrow> c # replace_all m rep s
      | r # _ \<Rightarrow>
          if length r < length (c # s) then rep @ replace_all m rep r
          else rep @ c # replace_all m rep s)"

text \<open>\<open>String.prototype.replace\<close> with a non-global expression that begins with \<open>^\<close>.\<close>

definition replace_at_start :: "matcher \<Rightarrow> jsstring \<Rightarrow> jsstring \<Rightarrow> jsstring" where
  "replace_at_start m rep s = (case m s of [] \<Rightarrow> s | r # _ \<Rightarrow> rep @ r)"

text \<open>
  \<open>String.prototype.split\<close> with a regular expression without groups. \<open>cur\<close> is the text between
  the end of the last separator (\<open>p\<close>) and the current index (\<open>q\<close>); a match that ends at \<open>p\<close> is skipped.
\<close>

fun split_loop :: "matcher \<Rightarrow> jsstring \<Rightarrow> jsstring \<Rightarrow> jsstring list" where
  "split_loop m cur [] = [cur]"
| "split_loop m cur (c # s) =
     (case m (c # s) of
        [] \<Rightarrow> split_loop m (cur @ [c]) s
      | r # _ \<Rightarrow>
          if length r < length (c # s) then cur # split_loop m [] r
          else if cur = [] then split_loop m [c] s
          else cur # split_loop m [c] s)"

definition js_split :: "matcher \<Rightarrow> jsstring \<Rightarrow> jsstring list" where
  "js_split m s = (if s = [] then (if m [] = [] then [[]] else []) else split_loop m [] s)"

definition trim :: "jsstring \<Rightarrow> jsstring" where
  "trim s = rev (dropWhile is_space (rev (dropWhile is_space s)))"

definition startsWith :: "jsstring \<Rightarrow> jsstring \<Rightarrow> bool" where
  "startsWith s p \<longleftrightarrow> take (length p) s = p"

text \<open>\<open>String.prototype.includes\<close>; every call of the source searches for one code unit.\<close>

definition str_includes :: "jsstring \<Rightarrow> nat \<Rightarrow> bool" where
  "str_includes s c \<longleftrightarrow> c \<in> set s"

section \<open>The executable extractor\<close>

definition SUBCOMMAND_EXECUTABLES :: "jsstring list" where
  "SUBCOMMAND_EXECUTABLES = map js [''git'', ''npm'', ''yarn'', ''pnpm'', ''docker'', ''kubectl'']"

definition SHELL_BUILTINS_TO_SKIP :: "jsstring list" where
  "SHELL_BUILTINS_TO_SKIP = map js [''true'', ''false'']"

definition SHELL_KEYWORDS_TO_SKIP :: "jsstring list" where
  "SHELL_KEYWORDS_TO_SKIP = map js [''for'', ''in'', ''do'', ''done'', ''while'', ''until'', ''if'',
     ''then'', ''else'', ''elif'', ''fi'', ''case'', ''esac'', ''select'']"

definition prefixes :: "jsstring list" where
  "prefixes = map js [''sudo'', ''env'', ''nohup'', ''nice'', ''time'', ''command'']"

text \<open>\<open><<\s*['"]?(\w+)['"]?[\s\S]*?\n\1\s*(?=\n|$)\<close>\<close>

definition heredoc_closed :: matcher where
  "heredoc_closed =
     seq (lit (js ''<<'')) (seq (star is_space) (seq (opt (cls is_quote))
       (capture (many1 is_word) (\<lambda>marker.
          seq (opt (cls is_quote)) (seq (lazy_star (\<lambda>c. True)) (seq (lit [10]) (seq (lit marker)
            (seq (star is_space) (lookahead (alt (lit [10]) eoi))))))))))"

text \<open>\<open><<\s*['"]?\w+['"]?[\s\S]*$\<close>\<close>

definition heredoc_open :: matcher where
  "heredoc_open =
     seq (lit (js ''<<'')) (seq (star is_space) (seq (opt (cls is_quote)) (seq (many1 is_word)
       (seq (opt (cls is_quote)) (seq (star (\<lambda>c. True)) eoi)))))"

text \<open>\<open>"[^"]*"\<close>, \<open>'[^']*'\<close> and the same with back-ticks, for the quote \<open>q\<close>.\<close>

definition quoted :: "nat \<Rightarrow> matcher" where
  "quoted q = seq (lit [q]) (seq (star (\<lambda>c. c \<noteq> q)) (lit [q]))"

text \<open>\<open>\d*>&?\d+\<close>\<close>

definition redirect_dup :: matcher where
  "redirect_dup = seq (star is_digit) (seq (lit (js ''>'')) (seq (opt (lit (js ''&''))) (many1 is_digit)))"

text \<open>\<open>\d+>>\S+\<close>\<close>

definition redirect_append :: matcher where
  "redirect_append = seq (many1 is_digit) (seq (lit (js ''>>'')) (many1 (\<lambda>c. \<not> is_space c)))"

text \<open>\<open>\d+>\S+\<close>\<close>

definition redirect_out :: matcher where
  "redirect_out = seq (many1 is_digit) (seq (lit (js ''>'')) (many1 (\<lambda>c. \<not> is_space c)))"

text \<open>\<open>[;&|\n]+\<close>\<close>

definition separators :: matcher where
  "separators = many1 is_sep"

text \<open>\<open>\s+\<close>\<close>

definition spaces :: matcher where
  "spaces = many1 is_space"

text \<open>\<open>^[A-Z]+$\<close>\<close>

definition marker_line :: matcher where
  "marker_line = seq (many1 is_upper) eoi"

text \<open>\<open>^[<>|&;()]+$\<close>\<close>

definition punctuation :: matcher where
  "punctuation = seq (many1 is_punct) eoi"

text \<open>\<open>^.*\/\<close>\<close>

definition path_prefix :: matcher where
  "path_prefix = seq (star is_dot) (lit (js ''/''))"

text \<open>\<open>^[a-zA-Z0-9_-]+$\<close>\<close>

definition command_name :: matcher where
  "command_name = seq (many1 is_cmd_char) eoi"

text \<open>
  The only operation of the function that can throw is a method call on an array element
  read past the end (\<open>undefined\<close>): \<open>parts[i]\<close> and \<open>parts[j]\<close>.
\<close>

datatype error = TypeError

definition element :: "'a list \<Rightarrow> nat \<Rightarrow> error + 'a" where
  "element xs i = (if i < length xs then Inr (xs ! i) else Inl TypeError)"

text \<open>The inner loop \<open>for (let j = i + 1; j < parts.length; j++)\<close>; the result is \<open>subcommand\<close>.\<close>

function find_subcommand :: "jsstring list \<Rightarrow> nat \<Rightarrow> error + jsstring option" where
  "find_subcommand parts j =
     (if j < length parts then
        (case element parts j of
           Inl e \<Rightarrow> Inl e
         | Inr nextPart \<Rightarrow>
             if startsWith nextPart (js ''-'') then find_subcommand parts (j + 1)
             else if str_includes nextPart 61 then find_subcommand parts (j + 1)
             else if test command_name nextPart then Inr (Some nextPart)
             else Inr None)
      else Inr None)"
  by pat_completeness auto
termination
  by (relation "measure (\<lambda>(parts, j). length parts - j)") auto

text \<open>
  The loop \<open>for (let i = 0; i < parts.length; i++)\<close>; the result is the pair
  \<open>(foundExec, subcommand)\<close>, or \<open>None\<close> when \<open>foundExec\<close> stays \<open>null\<close>. \<open>foundExec\<close> is \<open>null\<close> whenever
  the body runs, since the loop is left as soon as it is set; so the check \<open>!foundExec\<close> holds.
\<close>

function scan_parts :: "jsstring list \<Rightarrow> nat \<Rightarrow> error + (jsstring \<times> jsstring option) option" where
  "scan_parts parts i =
     (if i < length parts then
        (case element parts i of
           Inl e \<Rightarrow> Inl e
         | Inr part \<Rightarrow>
             if str_includes part 61 \<and> \<not> startsWith part (js ''-'') then scan_parts parts (i + 1)
             else if startsWith part (js ''-'') then scan_parts parts (i + 1)
             else if part \<in> set prefixes then scan_parts parts (i + 1)
             else if part \<in> set SHELL_BUILTINS_TO_SKIP then scan_parts parts (i + 1)
             else if part \<in> set SHELL_KEYWORDS_TO_SKIP then scan_parts parts (i + 1)
             else if part = [] \<or> test punctuation part then scan_parts parts (i + 1)
             else if startsWith part (js ''>'') \<or> startsWith part (js ''<'') then scan_parts parts (i + 1)
             else
               let exec = replace_at_start path_prefix [] part in
               if exec \<noteq> [] \<and> test command_name exec then
                 (if exec \<in> set SUBCOMMAND_EXECUTABLES then
                    (case find_subcommand parts (i + 1) of
                       Inl e \<Rightarrow> Inl e
                     | Inr subcommand \<Rightarrow> Inr (Some (exec, subcommand)))
                  else Inr (Some (exec, None)))
               else scan_parts parts (i + 1))
      else Inr None)"
  by pat_completeness auto
termination
  by (relation "measure (\<lambda>(parts, i). length parts - i)") auto

text \<open>
  The body of \<open>for (const segment of segments)\<close> up to the identity it pushes: \<open>None\<close> when the
  segment is skipped or \<open>foundExec\<close> is not set, else \<open>execId\<close>. A string is truthy when it is not empty.
\<close>

definition segment_identity :: "jsstring \<Rightarrow> error + jsstring option" where
  "segment_identity segment =
     (let trimmed = trim segment in
      if trimmed = [] then Inr None
      else if test marker_line trimmed then Inr None
      else
        let parts = js_split spaces trimmed in
        case scan_parts parts 0 of
          Inl e \<Rightarrow> Inl e
        | Inr None \<Rightarrow> Inr None
        | Inr (Some (foundExec, subcommand)) \<Rightarrow>
            if foundExec \<noteq> [] then
              Inr (Some (case subcommand of
                     None \<Rightarrow> foundExec
                   | Some sub \<Rightarrow> if sub \<noteq> [] then foundExec @ js '' '' @ sub else foundExec))
            else Inr None)"

text \<open>The loop over the segments, with the array \<open>executables\<close> as its state.\<close>

fun for_segments :: "jsstring list \<Rightarrow> jsstring list \<Rightarrow> error + jsstring list" where
  "for_segments executables [] = Inr executables"
| "for_segments executables (segment # segments) =
     (case segment_identity segment of
        Inl e \<Rightarrow> Inl e
      | Inr None \<Rightarrow> for_segments executables segments
      | Inr (Some execId) \<Rightarrow>
          if execId \<notin> set executables then for_segments (executables @ [execId]) segments
          else for_segments executables segments)"

text \<open>The three groups of textual passes, in the order of the source.\<close>

definition strip_heredocs :: "jsstring \<Rightarrow> jsstring" where
  "strip_heredocs command = replace_all heredoc_open [] (replace_all heredoc_closed [] command)"

definition strip_strings :: "jsstring \<Rightarrow> jsstring" where
  "strip_strings cleaned =
     replace_all (quoted 96) [96, 96]
       (replace_all (quoted 39) [39, 39]
          (replace_all (quoted 34) [34, 34] cleaned))"

definition strip_redirections :: "jsstring \<Rightarrow> jsstring" where
  "strip_redirections cleaned =
     replace_all redirect_out [] (replace_all redirect_append [] (replace_all redirect_dup [] cleaned))"

definition clean :: "jsstring \<Rightarrow> jsstring" where
  "clean command = strip_redirections (strip_strings (strip_heredocs command))"

definition extractExecutables :: "jsstring \<Rightarrow> error + jsstring list" where
  "extractExecutables command = for_segments [] (js_split separators (clean command))"

section \<open>The loops as functions on lists\<close>

text \<open>
  The conditions of the \<open>continue\<close> statements of the loop over the parts, in the order of the
  source: assignment, flag, prefix, builtin, keyword, empty or punctuation, redirection remnant.
\<close>

definition skipped :: "jsstring \<Rightarrow> bool" where
  "skipped part \<longleftrightarrow>
     (str_includes part 61 \<and> \<not> startsWith part (js ''-'')) \<or> startsWith part (js ''-'')
     \<or> part \<in> set prefixes \<or> part \<in> set SHELL_BUILTINS_TO_SKIP \<or> part \<in> set SHELL_KEYWORDS_TO_SKIP
     \<or> part = [] \<or> test punctuation part
     \<or> startsWith part (js ''>'') \<or> startsWith part (js ''<'')"

text \<open>\<open>part.replace(/^.*\//, '')\<close>\<close>

definition basename :: "jsstring \<Rightarrow> jsstring" where
  "basename part = replace_at_start path_prefix [] part"

text \<open>The parts at which the loop sets \<open>foundExec\<close>.\<close>

definition accepted :: "jsstring \<Rightarrow> bool" where
  "accepted part \<longleftrightarrow> \<not> skipped part \<and> basename part \<noteq> [] \<and> test command_name (basename part)"

text \<open>The inner loop, on the parts that follow the executable.\<close>

fun subcommand_of :: "jsstring list \<Rightarrow> jsstring option" where
  "subcommand_of [] = None"
| "subcommand_of (nextPart # rest) =
     (if startsWith nextPart (js ''-'') \<or> str_includes nextPart 61 then subcommand_of rest
      else if test command_name nextPart then Some nextPart
      else None)"

text \<open>The outer loop, on the parts that are left.\<close>

fun first_executable :: "jsstring list \<Rightarrow> (jsstring \<times> jsstring option) option" where
  "first_executable [] = None"
| "first_executable (part # rest) =
     (if accepted part then
        Some (basename part,
          if basename part \<in> set SUBCOMMAND_EXECUTABLES then subcommand_of rest else None)
      else first_executable rest)"

definition exec_id :: "jsstring \<times> jsstring option \<Rightarrow> jsstring" where
  "exec_id p =
     (case p of (foundExec, None) \<Rightarrow> foundExec | (foundExec, Some sub) \<Rightarrow> foundExec @ js '' '' @ sub)"

definition identity_of :: "jsstring \<Rightarrow> jsstring option" where
  "identity_of segment =
     (let trimmed = trim segment in
      if trimmed = [] \<or> test marker_line trimmed then None
      else map_option exec_id (first_executable (js_split spaces trimmed)))"

definition identities :: "jsstring list \<Rightarrow> jsstring list" where
  "identities segments = List.map_filter identity_of segments"

text \<open>What the body of the loop over the segments offers to push for one segment.\<close>

definition pushed :: "jsstring \<Rightarrow> jsstring list" where
  "pushed segment = (case segment_identity segment of Inr (Some execId) \<Rightarrow> [execId] | _ \<Rightarrow> [])"

text \<open>The shape of an identity: \<open>^[A-Za-z0-9_-]+( [A-Za-z0-9_-]+)?$\<close>\<close>

definition identity_pattern :: matcher where
  "identity_pattern =
     seq (many1 is_cmd_char) (seq (opt (seq (lit (js '' '')) (many1 is_cmd_char))) eoi)"

text \<open>A text without any of the three quote characters.\<close>

definition no_quotes :: "jsstring \<Rightarrow> bool" where
  "no_quotes s \<longleftrightarrow> 34 \<notin> set s \<and> 39 \<notin> set s \<and> 96 \<notin> set s"

text \<open>A text that begins with \<open><<\s*['"]?\w\<close>, the common start of the two heredoc patterns.\<close>

definition heredoc_start :: "jsstring \<Rightarrow> bool" where
  "heredoc_start t =
     (case t of
        c1 # c2 # u \<Rightarrow>
          c1 = 60 \<and> c2 = 60 \<and>
          (case dropWhile is_space u of
             [] \<Rightarrow> False
           | d # w \<Rightarrow> is_word d \<or> (is_quote d \<and> (case w of [] \<Rightarrow> False | e # _ \<Rightarrow> is_word e)))
      | _ \<Rightarrow> False)"

text \<open>One quote pass, \<open>cleaned.replace(/q[^q]*q/g, 'qq')\<close> for the quote \<open>q\<close>.\<close>

abbreviation quote_pass :: "nat \<Rightarrow> jsstring \<Rightarrow> jsstring" where
  "quote_pass q \<equiv> replace_all (quoted q) [q, q]"

text \<open>
  Every quote pass finds an even number of its quotes in the text, as the passes before it leave
  it: no pass ends inside a span.
\<close>

definition balanced :: "jsstring \<Rightarrow> bool" where
  "balanced s \<longleftrightarrow> even (count_list s 34) \<and> even (count_list (quote_pass 34 s) 39)
     \<and> even (count_list (quote_pass 39 (quote_pass 34 s)) 96)"

text \<open>A text without a heredoc start at any index.\<close>

fun no_heredoc :: "jsstring \<Rightarrow> bool" where
  "no_heredoc [] = True"
| "no_heredoc (c # s) = (\<not> heredoc_start (c # s) \<and> no_heredoc s)"

text \<open>
  In the words of the specification, a heredoc ends at a line that holds only its marker word,
  trailing white space allowed, before a newline or the end of the input. For a text that begins
  with a heredoc start, \<open>marker_text\<close> is the text from the marker word on and \<open>heredoc_marker\<close> the
  marker word. \<open>line_end y\<close>: the text \<open>y\<close> is white space up to a newline or up to its end.
  \<open>terminated w x\<close>: the text \<open>x\<close> holds a line that consists of \<open>w\<close> and trailing white space.
\<close>

definition marker_text :: "jsstring \<Rightarrow> jsstring" where
  "marker_text t =
     (case dropWhile is_space (drop 2 t) of [] \<Rightarrow> [] | d # w \<Rightarrow> if is_quote d then w else d # w)"

definition heredoc_marker :: "jsstring \<Rightarrow> jsstring" where
  "heredoc_marker t = takeWhile is_word (marker_text t)"

fun line_end :: "jsstring \<Rightarrow> bool" where
  "line_end [] = True"
| "line_end (c # y) = (c = 10 \<or> (is_space c \<and> line_end y))"

fun terminated :: "jsstring \<Rightarrow> jsstring \<Rightarrow> bool" where
  "terminated w [] = False"
| "terminated w (c # x) =
     ((c = 10 \<and> take (length w) x = w \<and> line_end (drop (length w) x)) \<or> terminated w x)"

section \<open>Facts about the matchers\<close>

declare find_subcommand.simps [simp del] scan_parts.simps [simp del]

lemma star_not_Nil [simp]: "star P s \<noteq> []"
  by (induction s) auto

lemma Nil_in_star: "[] \<in> set (star P s) \<longleftrightarrow> list_all P s"
  by (induction s) auto

lemma many1_Nil [simp]: "many1 P [] = []"
  by (simp add: many1_def seq_def cls_def)

lemma many1_Cons [simp]: "many1 P (c # r) = (if P c then star P r else [])"
  by (simp add: many1_def seq_def cls_def)

lemma seq_eoi: "seq m eoi s \<noteq> [] \<longleftrightarrow> [] \<in> set (m s)"
  by (auto simp: seq_def eoi_def)

lemma test_many1_eoi: "test (seq (many1 P) eoi) s \<longleftrightarrow> s \<noteq> [] \<and> list_all P s"
  by (cases s) (auto simp: test_def seq_eoi Nil_in_star)

lemma test_command_name: "test command_name s \<longleftrightarrow> s \<noteq> [] \<and> list_all is_cmd_char s"
  by (simp add: command_name_def test_many1_eoi)

lemma find_subcommand_drop: "find_subcommand parts j = Inr (subcommand_of (drop j parts))"
proof (induction parts j rule: find_subcommand.induct)
  case (1 parts j)
  show ?case
  proof (cases "j < length parts")
    case True
    then have d: "drop j parts = parts ! j # drop (Suc j) parts"
      by (simp add: Cons_nth_drop_Suc)
    from True 1 show ?thesis
      by (subst find_subcommand.simps) (simp add: d element_def)
  next
    case False
    then show ?thesis
      by (subst find_subcommand.simps) simp
  qed
qed

lemma scan_parts_step:
  assumes "i < length parts"
  shows "scan_parts parts i =
     (if accepted (parts ! i) then
        Inr (Some (basename (parts ! i),
          if basename (parts ! i) \<in> set SUBCOMMAND_EXECUTABLES
          then subcommand_of (drop (Suc i) parts) else None))
      else scan_parts parts (Suc i))"
proof (cases "accepted (parts ! i)")
  case True
  with assms show ?thesis
    by (subst scan_parts.simps)
      (auto simp add: element_def accepted_def skipped_def basename_def Let_def find_subcommand_drop)
next
  case False
  with assms show ?thesis
    by (subst scan_parts.simps)
      (auto simp add: element_def accepted_def skipped_def basename_def Let_def)
qed

lemma scan_parts_drop: "scan_parts parts i = Inr (first_executable (drop i parts))"
proof (induction "length parts - i" arbitrary: i)
  case 0
  then show ?case
    by (subst scan_parts.simps) simp
next
  case (Suc n)
  then have lt: "i < length parts" and "n = length parts - Suc i"
    by simp_all
  then have ih: "scan_parts parts (Suc i) = Inr (first_executable (drop (Suc i) parts))"
    using Suc.hyps(1) by blast
  have d: "drop i parts = parts ! i # drop (Suc i) parts"
    using lt by (simp add: Cons_nth_drop_Suc)
  show ?case
    by (simp add: scan_parts_step [OF lt] ih d)
qed

lemma subcommand_of_Some:
  "subcommand_of ps = Some sub \<Longrightarrow> sub \<in> set ps \<and> test command_name sub"
  by (induction ps) (auto split: if_splits)

lemma first_executable_Some:
  assumes "first_executable parts = Some (foundExec, subcommand)"
  shows "test command_name foundExec"
    and "subcommand = Some sub \<Longrightarrow> test command_name sub"
  using assms
  by (induction parts) (auto simp: accepted_def dest: subcommand_of_Some split: if_splits)

lemma segment_identity_pure: "segment_identity segment = Inr (identity_of segment)"
proof -
  have "foundExec \<noteq> []" if "first_executable parts = Some (foundExec, subcommand)"
    for parts foundExec subcommand
    using first_executable_Some(1) [OF that] by (simp add: test_command_name)
  moreover have "sub \<noteq> []" if "first_executable parts = Some (foundExec, Some sub)"
    for parts foundExec sub
    using first_executable_Some(2) [OF that] by (simp add: test_command_name)
  ultimately show ?thesis
    by (auto simp: segment_identity_def identity_of_def Let_def scan_parts_drop exec_id_def
        split: option.splits)
qed

lemma remdups_snoc: "remdups (xs @ [e]) = remdups (filter (\<lambda>x. x \<noteq> e) xs) @ [e]"
  by (induction xs) auto

text \<open>The loop over the segments appends the identities not seen before.\<close>

lemma for_segments_pure:
  "for_segments executables segments =
     Inr (executables @ rev (remdups (rev (filter (\<lambda>e. e \<notin> set executables) (identities segments)))))"
proof (induction segments arbitrary: executables)
  case Nil
  then show ?case by (simp add: identities_def)
next
  case (Cons segment segments)
  show ?case
  proof (cases "identity_of segment")
    case None
    then show ?thesis
      by (simp add: Cons segment_identity_pure identities_def)
  next
    case (Some e)
    show ?thesis
    proof (cases "e \<in> set executables")
      case True
      then show ?thesis
        by (simp add: Cons Some segment_identity_pure identities_def)
    next
      case False
      have "rev (remdups (rev (filter (\<lambda>x. x \<notin> set executables) (e # xs)))) =
            e # rev (remdups (rev (filter (\<lambda>x. x \<notin> set (executables @ [e])) xs)))" for xs
      proof -
        let ?ys = "filter (\<lambda>x. x \<notin> set executables) xs"
        have "remdups (rev ?ys @ [e]) = remdups (filter (\<lambda>x. x \<noteq> e) (rev ?ys)) @ [e]"
          by (rule remdups_snoc)
        also have "filter (\<lambda>x. x \<noteq> e) (rev ?ys) = rev (filter (\<lambda>x. x \<notin> set (executables @ [e])) xs)"
          by (simp add: rev_filter [symmetric] conj_commute)
        finally show ?thesis
          using False by simp
      qed
      then show ?thesis
        using False
        by (simp add: Cons Some segment_identity_pure identities_def)
    qed
  qed
qed

lemma extractExecutables_pure:
  "extractExecutables command =
     Inr (rev (remdups (rev (identities (js_split separators (clean command))))))"
  by (simp add: extractExecutables_def for_segments_pure)

lemma set_seq: "set (seq m1 m2 s) = (\<Union>r\<in>set (m1 s). set (m2 r))"
  by (simp add: seq_def)

lemma set_opt: "set (opt m s) = insert s (set (m s))"
  by (simp add: opt_def)

lemma star_append_mem: "list_all P a \<Longrightarrow> r \<in> set (star P (a @ r))"
  by (induction a) (auto, cases r, auto)

lemma many1_append_mem: "a \<noteq> [] \<Longrightarrow> list_all P a \<Longrightarrow> r \<in> set (many1 P (a @ r))"
  by (cases a) (auto simp: star_append_mem)

lemma test_identity_pattern:
  assumes "test command_name a"
  shows "test identity_pattern a"
    and "test command_name b \<Longrightarrow> test identity_pattern (a @ js '' '' @ b)"
proof -
  from assms have a: "a \<noteq> []" "list_all is_cmd_char a"
    by (simp_all add: test_command_name)
  have "[] \<in> set (many1 is_cmd_char (a @ []))"
    using a by (rule many1_append_mem)
  then have "[] \<in> set (identity_pattern a)"
    by (auto simp: identity_pattern_def set_seq set_opt eoi_def)
  then show "test identity_pattern a"
    by (auto simp: test_def)
  assume "test command_name b"
  then have b: "b \<noteq> []" "list_all is_cmd_char b"
    by (simp_all add: test_command_name)
  have 1: "js '' '' @ b \<in> set (many1 is_cmd_char (a @ js '' '' @ b))"
    using a by (rule many1_append_mem)
  have "[] \<in> set (many1 is_cmd_char (b @ []))"
    using b by (rule many1_append_mem)
  then have 2: "[] \<in> set (seq (lit (js '' '')) (many1 is_cmd_char) (js '' '' @ b))"
    by (simp add: set_seq lit_def js_def)
  have "[] \<in> set (identity_pattern (a @ js '' '' @ b))"
    unfolding identity_pattern_def set_seq [of "many1 is_cmd_char"]
    using 1 2 by (intro UN_I [where a = "js '' '' @ b"]) (auto simp: set_seq set_opt eoi_def)
  then show "test identity_pattern (a @ js '' '' @ b)"
    by (auto simp: test_def)
qed

lemma exec_id_pattern:
  assumes "first_executable parts = Some p"
  shows "exec_id p \<noteq> [] \<and> test identity_pattern (exec_id p)"
proof (cases p)
  case (Pair foundExec subcommand)
  with assms have f: "test command_name foundExec"
    by (auto dest: first_executable_Some(1))
  show ?thesis
  proof (cases subcommand)
    case None
    with Pair f show ?thesis
      by (simp add: exec_id_def test_identity_pattern(1)) (simp add: test_command_name)
  next
    case (Some sub)
    with Pair assms have "test command_name sub"
      by (auto dest: first_executable_Some(2))
    with Pair Some f show ?thesis
      by (simp add: exec_id_def test_identity_pattern(2)) (simp add: test_command_name)
  qed
qed

lemma identity_of_pattern:
  "identity_of segment = Some e \<Longrightarrow> e \<noteq> [] \<and> test identity_pattern e"
  by (auto simp: identity_of_def Let_def dest: exec_id_pattern split: if_splits)

lemma identities_pattern: "e \<in> set (identities segments) \<Longrightarrow> e \<noteq> [] \<and> test identity_pattern e"
  by (induction segments) (auto simp: identities_def dest: identity_of_pattern split: option.splits)

lemma concat_pushed: "concat (map pushed segments) = identities segments"
  by (induction segments) (auto simp: pushed_def identities_def segment_identity_pure split: option.splits)

lemmas char_classes = is_space_def is_digit_def is_upper_def is_lower_def is_word_def
  is_cmd_char_def is_quote_def is_sep_def is_punct_def is_dot_def

lemmas matchers = lit_def cls_def seq_def opt_def alt_def eoi_def lookahead_def capture_def test_def
  heredoc_closed_def heredoc_open_def quoted_def redirect_dup_def redirect_append_def
  redirect_out_def separators_def spaces_def marker_line_def punctuation_def path_prefix_def
  command_name_def

lemmas passes = clean_def strip_heredocs_def strip_strings_def strip_redirections_def

lemmas scanning = identities_def identity_of_def accepted_def skipped_def basename_def exec_id_def
  replace_at_start_def js_split_def trim_def startsWith_def str_includes_def
  prefixes_def SHELL_BUILTINS_TO_SKIP_def SHELL_KEYWORDS_TO_SKIP_def SUBCOMMAND_EXECUTABLES_def

lemma subcommand_of_dropWhile:
  "subcommand_of ps =
     (case dropWhile (\<lambda>t. startsWith t (js ''-'') \<or> str_includes t 61) ps of
        [] \<Rightarrow> None
      | t # _ \<Rightarrow> if test command_name t then Some t else None)"
  by (induction ps) auto

lemma first_executable_dropWhile:
  "first_executable parts =
     (case dropWhile (\<lambda>part. \<not> accepted part) parts of
        [] \<Rightarrow> None
      | part # rest \<Rightarrow>
          Some (basename part,
            if basename part \<in> set SUBCOMMAND_EXECUTABLES then subcommand_of rest else None))"
  by (induction parts) auto

lemma not_accepted: "\<not> accepted part \<longleftrightarrow> skipped part \<or> \<not> test command_name (basename part)"
  by (auto simp: accepted_def test_command_name)

lemma first_executable_append:
  assumes "\<forall>p\<in>set pre. \<not> accepted p" and "accepted part"
  shows "first_executable (pre @ part # rest) =
     Some (basename part,
       if basename part \<in> set SUBCOMMAND_EXECUTABLES then subcommand_of rest else None)"
  using assms by (induction pre) auto

lemma first_executable_at:
  assumes "i < length parts" and "\<forall>k<i. \<not> accepted (parts ! k)" and "accepted (parts ! i)"
  shows "first_executable parts =
     Some (basename (parts ! i),
       if basename (parts ! i) \<in> set SUBCOMMAND_EXECUTABLES
       then subcommand_of (drop (Suc i) parts) else None)"
proof -
  have "\<forall>p\<in>set (take i parts). \<not> accepted p"
    using assms(1,2) by (auto simp: in_set_conv_nth)
  from first_executable_append [OF this assms(3), of "drop (Suc i) parts"] show ?thesis
    using assms(1) by (simp add: id_take_nth_drop [symmetric])
qed

text \<open>The path prefix: with no line terminator in the part, everything up to the last slash.\<close>

lemma path_prefix_Cons:
  "is_dot c \<Longrightarrow> path_prefix (c # r) = path_prefix r @ (if c = 47 then [r] else [])"
  by (simp add: path_prefix_def seq_def lit_def js_def)

lemma path_prefix_Nil: "path_prefix [] = []"
  by (simp add: path_prefix_def seq_def lit_def js_def)

lemma path_prefix_empty: "list_all is_dot part \<Longrightarrow> path_prefix part = [] \<longleftrightarrow> 47 \<notin> set part"
  by (induction part) (auto simp: path_prefix_Cons path_prefix_Nil)

lemma basename_last_slash:
  assumes "list_all is_dot part"
  shows "basename part = rev (takeWhile (\<lambda>c. c \<noteq> 47) (rev part))"
  using assms
proof (induction part)
  case Nil
  then show ?case by (simp add: basename_def replace_at_start_def path_prefix_Nil)
next
  case (Cons c r)
  then have dots: "is_dot c" "list_all is_dot r"
    by simp_all
  show ?case
  proof (cases "47 \<in> set r")
    case True
    then have ne: "path_prefix r \<noteq> []"
      using dots by (simp add: path_prefix_empty)
    then obtain x xs where x: "path_prefix r = x # xs"
      by (cases "path_prefix r") auto
    then have "basename (c # r) = basename r"
      using dots by (simp add: basename_def replace_at_start_def path_prefix_Cons)
    also have "\<dots> = rev (takeWhile (\<lambda>c. c \<noteq> 47) (rev r))"
      using Cons dots by simp
    also have "\<dots> = rev (takeWhile (\<lambda>c. c \<noteq> 47) (rev (c # r)))"
      using True by auto
    finally show ?thesis .
  next
    case False
    then have e: "path_prefix r = []"
      using dots by (simp add: path_prefix_empty)
    have "takeWhile (\<lambda>c. c \<noteq> 47) (rev r @ [c]) = rev r @ takeWhile (\<lambda>c. c \<noteq> 47) [c]"
      by (rule takeWhile_append2) (use False in auto)
    then show ?thesis
      using dots e False
      by (auto simp: basename_def replace_at_start_def path_prefix_Cons)
  qed
qed

text \<open>The parts of a segment hold no white space, so no line terminator.\<close>

lemma split_loop_classes:
  assumes "part \<in> set (split_loop (many1 P) cur s)" and "\<forall>c\<in>set cur. \<not> P c"
  shows "\<forall>c\<in>set part. \<not> P c"
  using assms
proof (induction "many1 P" cur s rule: split_loop.induct)
  case (1 cur)
  then show ?case by simp
next
  case (2 cur c s)
  show ?case
  proof (cases "P c")
    case True
    then have m: "many1 P (c # s) = star P s"
      by simp
    obtain r rs where r: "star P s = r # rs"
      by (cases "star P s") auto
    have "\<forall>x\<in>set (star P s). length x \<le> length s"
      by (induction s) auto
    then have len: "length r < length (c # s)"
      using r by auto
    from 2 True r m len show ?thesis
      by (auto split: if_splits)
  next
    case False
    with 2 show ?thesis
      by (auto split: if_splits)
  qed
qed

lemma split_spaces_no_space:
  "part \<in> set (js_split spaces s) \<Longrightarrow> \<forall>c\<in>set part. \<not> is_space c"
  using split_loop_classes [of part is_space "[]" s]
  by (auto simp: js_split_def spaces_def split: if_splits)

lemma split_spaces_dots: "part \<in> set (js_split spaces s) \<Longrightarrow> list_all is_dot part"
  by (auto simp: list_all_iff is_dot_def is_space_def dest!: split_spaces_no_space)

lemma identity_of_None:
  "identity_of segment = None \<longleftrightarrow>
     trim segment = [] \<or> test marker_line (trim segment)
     \<or> (\<forall>part\<in>set (js_split spaces (trim segment)). skipped part \<or> \<not> test command_name (basename part))"
proof -
  have "first_executable parts = None \<longleftrightarrow> (\<forall>part\<in>set parts. \<not> accepted part)" for parts
    by (induction parts) auto
  then show ?thesis
    by (auto simp: identity_of_def Let_def not_accepted)
qed

lemma scan_parts_first:
  "\<exists>r. scan_parts parts 0 = Inr r
      \<and> map_option fst r =
          (case dropWhile (\<lambda>part. skipped part \<or> \<not> test command_name (basename part)) parts of
             [] \<Rightarrow> None
           | part # _ \<Rightarrow> Some (basename part))"
proof -
  have "map_option fst (first_executable parts) =
          (case dropWhile (\<lambda>part. \<not> accepted part) parts of
             [] \<Rightarrow> None
           | part # _ \<Rightarrow> Some (basename part))"
    by (induction parts) auto
  then have "scan_parts parts 0 = Inr (first_executable parts)
      \<and> map_option fst (first_executable parts) =
          (case dropWhile (\<lambda>part. skipped part \<or> \<not> test command_name (basename part)) parts of
             [] \<Rightarrow> None
           | part # _ \<Rightarrow> Some (basename part))"
    by (simp only: not_accepted scan_parts_drop drop_0 simp_thms)
  then show ?thesis ..
qed

lemma scan_parts_at:
  assumes "i < length parts" and "\<forall>k<i. \<not> accepted (parts ! k)" and "accepted (parts ! i)"
  shows "basename (parts ! i) \<in> set SUBCOMMAND_EXECUTABLES \<Longrightarrow>
           scan_parts parts 0 =
             (case find_subcommand parts (i + 1) of
                Inl e \<Rightarrow> Inl e
              | Inr subcommand \<Rightarrow> Inr (Some (basename (parts ! i), subcommand)))"
    and "basename (parts ! i) \<notin> set SUBCOMMAND_EXECUTABLES \<Longrightarrow>
           scan_parts parts 0 = Inr (Some (basename (parts ! i), None))"
  using first_executable_at [OF assms]
  by (simp_all add: scan_parts_drop find_subcommand_drop)

lemma segment_identity_sub:
  assumes "trim segment \<noteq> []" and "\<not> test marker_line (trim segment)"
    and "scan_parts (js_split spaces (trim segment)) 0 = Inr (Some (exec, Some sub))"
  shows "segment_identity segment = Inr (Some (exec @ js '' '' @ sub))"
  using assms by (simp add: segment_identity_pure identity_of_def scan_parts_drop exec_id_def)

section \<open>Evaluation on concrete commands\<close>

lemmas evaluation = extractExecutables_pure passes scanning matchers char_classes js_def

lemma eval_for_loop:
  "extractExecutables (js ''for f in *.txt; do cat '' @ [34] @ js ''$f'' @ [34] @ js ''; done'')
     = Inr [js ''f'', js ''cat'']"
  by (simp add: evaluation)

lemma eval_heredoc:
  "extractExecutables (js ''cat <<'' @ [39] @ js ''EOF'' @ [39]
       @ js ''\<newline>some text with rm -rf /\<newline>EOF\<newline>echo done'')
     = Inr [js ''cat'', js ''echo'']"
  by (simp add: evaluation)

lemma eval_docker: "extractExecutables (js ''sudo docker ps -a'') = Inr [js ''docker ps'']"
  by (simp add: evaluation)

lemma eval_npm:
  "extractExecutables (js ''echo hello && npm run build'') = Inr [js ''echo'', js ''npm run'']"
  by (simp add: evaluation)

lemma eval_script: "extractExecutables (js ''./run.sh build'') = Inr [js ''build'']"
  by (simp add: evaluation)

section \<open>The textual passes\<close>

lemma replace_all_prefix:
  assumes "\<And>k. k < length pre \<Longrightarrow> m (drop k pre @ s) = []"
  shows "replace_all m rep (pre @ s) = pre @ replace_all m rep s"
  using assms
proof (induction pre)
  case Nil
  then show ?case by simp
next
  case (Cons c pre)
  from Cons.prems [of 0] have "m (c # pre @ s) = []"
    by simp
  moreover have "m (drop k pre @ s) = []" if "k < length pre" for k
    using Cons.prems [of "Suc k"] that by simp
  ultimately show ?case
    using Cons.IH by simp
qed

lemma replace_all_none:
  assumes "\<And>k. k \<le> length s \<Longrightarrow> m (drop k s) = []"
  shows "replace_all m rep s = s"
proof -
  have "m [] = []"
    using assms [of "length s"] by simp
  moreover have "replace_all m rep (s @ []) = s @ replace_all m rep []"
    by (rule replace_all_prefix) (use assms in simp)
  ultimately show ?thesis
    by simp
qed

lemma replace_all_match:
  "m s = r # rs \<Longrightarrow> length r < length s \<Longrightarrow> replace_all m rep s = rep @ replace_all m rep r"
  by (cases s) auto

lemma seq_lit_Cons: "c \<noteq> x \<Longrightarrow> seq (lit (x # xs)) m (c # s) = []"
  by (simp add: seq_def lit_def)

lemma seq_lit_Nil: "seq (lit (x # xs)) m [] = []"
  by (simp add: seq_def lit_def)

text \<open>The quote patterns in closed form.\<close>

lemma seq_star_lit:
  "seq (star (\<lambda>c. c \<noteq> q)) (lit [q]) t =
     (if q \<in> set t then [tl (dropWhile (\<lambda>c. c \<noteq> q) t)] else [])"
  by (induction t) (auto simp: seq_def lit_def)

lemma quoted_Cons:
  "quoted q (c # t) = (if c = q \<and> q \<in> set t then [tl (dropWhile (\<lambda>c. c \<noteq> q) t)] else [])"
  by (simp add: quoted_def seq_def [of "lit [q]"] lit_def seq_star_lit)

lemma quoted_Nil: "quoted q [] = []"
  by (simp add: quoted_def seq_lit_Nil)

lemma quoted_other: "c \<noteq> q \<Longrightarrow> quoted q (c # t) = []"
  by (simp add: quoted_Cons)

lemma quote_pass_prefix:
  assumes "q \<notin> set pre"
  shows "replace_all (quoted q) rep (pre @ s) = pre @ replace_all (quoted q) rep s"
proof (rule replace_all_prefix)
  fix k assume "k < length pre"
  then obtain c t where ct: "drop k pre = c # t"
    by (cases "drop k pre") auto
  then have "c \<in> set pre"
    by (metis in_set_dropD list.set_intros(1))
  with assms have "c \<noteq> q"
    by auto
  with ct show "quoted q (drop k pre @ s) = []"
    by (simp add: quoted_other)
qed



lemma quote_pass_span:
  assumes "q \<notin> set pre" and "q \<notin> set body"
  shows "replace_all (quoted q) rep (pre @ q # body @ q # post) =
           pre @ rep @ replace_all (quoted q) rep post"
proof -
  have "dropWhile (\<lambda>c. c \<noteq> q) (body @ q # post) = q # post"
    using assms(2) by (auto simp: dropWhile_append)
  then have "quoted q (q # body @ q # post) = [post]"
    by (simp add: quoted_Cons)
  then have "replace_all (quoted q) rep (q # body @ q # post) = rep @ replace_all (quoted q) rep post"
    by (intro replace_all_match [where rs = "[]"]) simp_all
  then show ?thesis
    using assms(1) by (simp add: quote_pass_prefix)
qed





text \<open>Without \<open><\<close> there is no heredoc.\<close>

lemma heredoc_closed_other: "c \<noteq> 60 \<Longrightarrow> heredoc_closed (c # t) = []"
  by (simp add: heredoc_closed_def js_def seq_lit_Cons)

lemma heredoc_open_other: "c \<noteq> 60 \<Longrightarrow> heredoc_open (c # t) = []"
  by (simp add: heredoc_open_def js_def seq_lit_Cons)

lemma heredoc_Nil: "heredoc_closed [] = []" "heredoc_open [] = []"
  by (simp_all add: heredoc_closed_def heredoc_open_def js_def seq_lit_Nil)


lemma eval_commit:
  "extractExecutables (js ''git commit -m '' @ [39] @ js ''fix: handles <<EOF markers'' @ [39])
     = Inr [js ''git commit'']"
  by (simp add: evaluation)

lemma eval_commit_clean:
  "clean (js ''git commit -m '' @ [39] @ js ''fix: handles <<EOF markers'' @ [39])
     = js ''git commit -m '' @ [39] @ js ''fix: handles ''"
  by (simp add: passes matchers char_classes js_def)


lemma replace_all_prefix_chars:
  assumes "\<And>c t. c \<in> set pre \<Longrightarrow> m (c # t) = []"
  shows "replace_all m rep (pre @ s) = pre @ replace_all m rep s"
proof (rule replace_all_prefix)
  fix k assume "k < length pre"
  then obtain c t where ct: "drop k pre = c # t"
    by (cases "drop k pre") auto
  then have "c \<in> set pre"
    by (metis in_set_dropD list.set_intros(1))
  with assms ct show "m (drop k pre @ s) = []"
    by simp
qed








text \<open>Splitting at separators.\<close>

lemma star_hd: "\<exists>rs. star P s = dropWhile P s # rs"
  by (induction s) auto











lemma seq_lit2:
  "seq (lit [a, b]) m t =
     (case t of c1 # c2 # u \<Rightarrow> if c1 = a \<and> c2 = b then m u else [] | _ \<Rightarrow> [])"
  by (auto simp: seq_def lit_def split: list.splits)

lemma seq_nonempty: "seq m1 m2 s \<noteq> [] \<longleftrightarrow> (\<exists>r\<in>set (m1 s). m2 r \<noteq> [])"
  by (auto simp: seq_def)

lemma many1_nonempty: "many1 P r \<noteq> [] \<longleftrightarrow> (case r of [] \<Rightarrow> False | d # _ \<Rightarrow> P d)"
  by (cases r) auto

lemma star_mem_stop:
  assumes "r \<in> set (star P u)" and "r \<noteq> []" and "\<not> P (hd r)"
  shows "r = dropWhile P u"
  using assms by (induction u) (auto split: if_splits)

lemma dropWhile_in_star: "dropWhile P u \<in> set (star P u)"
  using star_hd [of P u] by auto

lemma quote_not_space: "is_quote d \<Longrightarrow> \<not> is_space d" "is_word d \<Longrightarrow> \<not> is_space d"
  "is_quote d \<Longrightarrow> \<not> is_word d"
  by (auto simp: char_classes)

text \<open>Both heredoc patterns begin with \<open><<\s*['"]?\w\<close>.\<close>

lemma start_shape:
  assumes "\<And>r. m r \<noteq> [] \<Longrightarrow> many1 is_word r \<noteq> []"
    and "seq (lit (js ''<<'')) (seq (star is_space) (seq (opt (cls is_quote)) m)) t \<noteq> []"
  shows "heredoc_start t"
proof -
  from assms(2) obtain u where t: "t = 60 # 60 # u"
    and "seq (star is_space) (seq (opt (cls is_quote)) m) u \<noteq> []"
    by (auto simp: js_def seq_lit2 split: if_splits list.splits)
  then obtain r where r: "r \<in> set (star is_space u)" "seq (opt (cls is_quote)) m r \<noteq> []"
    by (auto simp: seq_nonempty)
  then obtain r' where r': "r' \<in> set (opt (cls is_quote) r)" "many1 is_word r' \<noteq> []"
    using assms(1) by (auto simp: seq_nonempty)
  from r'(2) obtain e w' where e: "r' = e # w'" "is_word e"
    by (cases r') (auto split: if_splits)
  from r'(1) have "r = r' \<or> (\<exists>d. r = d # r' \<and> is_quote d)"
    by (auto simp: opt_def cls_def split: list.splits if_splits)
  then have shape: "r \<noteq> [] \<and> \<not> is_space (hd r)
      \<and> (case r of [] \<Rightarrow> False
          | d # w \<Rightarrow> is_word d \<or> (is_quote d \<and> (case w of [] \<Rightarrow> False | e # _ \<Rightarrow> is_word e)))"
    using e by (auto simp: quote_not_space)
  with r(1) have "r = dropWhile is_space u"
    by (intro star_mem_stop) simp_all
  with shape t show ?thesis
    by (simp add: heredoc_start_def)
qed

lemma heredoc_closed_start: "heredoc_closed t \<noteq> [] \<Longrightarrow> heredoc_start t"
proof (rule start_shape)
  show "heredoc_closed t \<noteq> [] \<Longrightarrow>
    seq (lit (js ''<<'')) (seq (star is_space) (seq (opt (cls is_quote))
       (capture (many1 is_word) (\<lambda>marker.
          seq (opt (cls is_quote)) (seq (lazy_star (\<lambda>c. True)) (seq (lit [10]) (seq (lit marker)
            (seq (star is_space) (lookahead (alt (lit [10]) eoi)))))))))) t \<noteq> []"
    by (simp add: heredoc_closed_def)
  show "capture (many1 is_word) k r \<noteq> [] \<Longrightarrow> many1 is_word r \<noteq> []" for k r
    by (auto simp: capture_def)
qed

lemma tail_nonempty: "seq (opt (cls is_quote)) (seq (star (\<lambda>c. True)) eoi) r \<noteq> []"
proof -
  have "[] \<in> set (star (\<lambda>c. True) r)"
    by (simp add: Nil_in_star list_all_iff)
  then have "seq (star (\<lambda>c. True)) eoi r \<noteq> []"
    by (simp add: seq_eoi)
  then show ?thesis
    by (auto simp: seq_nonempty opt_def)
qed

lemma heredoc_open_start: "test heredoc_open t \<longleftrightarrow> heredoc_start t"
proof
  assume "test heredoc_open t"
  then have "heredoc_open t \<noteq> []"
    by (simp add: test_def)
  then show "heredoc_start t"
    unfolding heredoc_open_def
    by (rule start_shape [rotated]) (auto simp: seq_nonempty)
next
  assume "heredoc_start t"
  then obtain u d w where t: "t = 60 # 60 # u" and dw: "dropWhile is_space u = d # w"
    and d: "is_word d \<or> (is_quote d \<and> (case w of [] \<Rightarrow> False | e # _ \<Rightarrow> is_word e))"
    by (auto simp: heredoc_start_def split: list.splits)
  let ?word = "seq (many1 is_word) (seq (opt (cls is_quote)) (seq (star (\<lambda>c. True)) eoi))"
  have word: "?word (e # x) \<noteq> []" if "is_word e" for e x
    using that tail_nonempty by (auto simp: seq_nonempty [of "many1 is_word"] intro: bexI [of _ "dropWhile is_word x"] dropWhile_in_star)
  have "seq (opt (cls is_quote)) ?word (d # w) \<noteq> []"
  proof (cases "is_word d")
    case True
    then show ?thesis
      using word by (auto simp: seq_nonempty [of "opt (cls is_quote)"] opt_def)
  next
    case False
    with d obtain e x where "is_quote d" "w = e # x" "is_word e"
      by (auto split: list.splits)
    then show ?thesis
      using word by (auto simp: seq_nonempty [of "opt (cls is_quote)"] opt_def cls_def)
  qed
  then have "seq (star is_space) (seq (opt (cls is_quote)) ?word) u \<noteq> []"
    using dropWhile_in_star [of is_space u] dw
    by (auto simp: seq_nonempty [of "star is_space"])
  then have "heredoc_open t \<noteq> []"
    using t by (simp add: heredoc_open_def js_def seq_lit2)
  then show "test heredoc_open t"
    by (simp add: test_def)
qed

lemma heredoc_open_rest: "r \<in> set (heredoc_open t) \<Longrightarrow> r = []"
  by (auto simp: heredoc_open_def set_seq eoi_def split: if_splits)

text \<open>The second heredoc pass cuts the text at the leftmost heredoc start.\<close>

lemma strip_open:
  assumes "test heredoc_open rest"
    and "\<forall>k<length pre. \<not> test heredoc_open (drop k pre @ rest)"
  shows "replace_all heredoc_open [] (pre @ rest) = pre"
proof -
  from assms(1) obtain r rs where m: "heredoc_open rest = r # rs"
    by (cases "heredoc_open rest") (auto simp: test_def)
  then have "r = []"
    using heredoc_open_rest [of r rest] by simp
  moreover from m have "rest \<noteq> []"
    by (auto simp: heredoc_Nil)
  ultimately have "replace_all heredoc_open [] rest = [] @ replace_all heredoc_open [] []"
    using m by (intro replace_all_match [where rs = rs]) simp_all
  then have "replace_all heredoc_open [] rest = []"
    by (simp add: heredoc_Nil)
  moreover have "replace_all heredoc_open [] (pre @ rest) = pre @ replace_all heredoc_open [] rest"
    by (rule replace_all_prefix) (use assms(2) in \<open>simp add: test_def\<close>)
  ultimately show ?thesis
    by simp
qed

lemma heredoc_start_append:
  assumes "heredoc_start t"
  shows "heredoc_start (t @ u)"
proof -
  from assms obtain v d w where t: "t = 60 # 60 # v" and dw: "dropWhile is_space v = d # w"
    and d: "is_word d \<or> (is_quote d \<and> (case w of [] \<Rightarrow> False | e # _ \<Rightarrow> is_word e))"
    by (auto simp: heredoc_start_def split: list.splits)
  have "dropWhile is_space v \<noteq> []"
    using dw by simp
  then have "\<not> (\<forall>c\<in>set v. is_space c)"
    by simp
  then have "dropWhile is_space (v @ u) = d # w @ u"
    using dw by (auto simp: dropWhile_append)
  with t d show ?thesis
    by (cases w) (auto simp: heredoc_start_def)
qed

lemma heredoc_start_Nil: "\<not> heredoc_start []"
  by (simp add: heredoc_start_def)

lemma strip_heredocs_prefix_free:
  assumes "\<forall>k<length pre. \<not> test heredoc_open (drop k pre @ rest)"
  shows "strip_heredocs pre = pre"
proof -
  have no: "\<not> heredoc_start (drop k pre)" for k
  proof (cases "k < length pre")
    case True
    with assms show ?thesis
      by (auto simp: heredoc_open_start dest: heredoc_start_append)
  next
    case False
    then show ?thesis
      by (simp add: heredoc_start_Nil)
  qed
  then have "heredoc_closed (drop k pre) = []" "heredoc_open (drop k pre) = []" for k
    using heredoc_closed_start [of "drop k pre"] heredoc_open_start [of "drop k pre"]
    by (auto simp: test_def)
  then show ?thesis
    by (simp add: strip_heredocs_def replace_all_none)
qed

text \<open>A heredoc start that the first pass does not match stays where it is.\<close>

lemma strip_closed_keeps_start:
  assumes "heredoc_start rest" and "heredoc_closed rest = []"
  shows "\<exists>y y'. rest = 60 # 60 # y \<and> replace_all heredoc_closed [] rest = 60 # 60 # y'
           \<and> heredoc_start (60 # 60 # y')"
proof -
  let ?R = "replace_all heredoc_closed []"
  from assms(1) obtain u d w where rest: "rest = 60 # 60 # u" and dw: "dropWhile is_space u = d # w"
    and d: "is_word d \<or> (is_quote d \<and> (case w of [] \<Rightarrow> False | e # _ \<Rightarrow> is_word e))"
    by (auto simp: heredoc_start_def split: list.splits)
  have sp: "\<not> is_space 60" "\<not> is_word 60" "\<not> is_quote 60"
    by (simp_all add: char_classes)
  from dw have u: "u = takeWhile is_space u @ d # w"
    by (metis takeWhile_dropWhile_id)
  from dw have nd: "\<not> is_space d"
    by (metis hd_dropWhile list.sel(1) list.distinct(1))
  have "u \<noteq> []"
    using dw by auto
  then have "hd u \<noteq> 60"
    using u d sp nd by (cases "takeWhile is_space u") (auto dest: set_takeWhileD simp: hd_append)
  then have second: "heredoc_closed (60 # u) = []"
    using \<open>u \<noteq> []\<close> by (cases u) (auto simp: heredoc_closed_def js_def seq_lit2)
  have spaces: "c \<noteq> 60" if "c \<in> set (takeWhile is_space u)" for c
    using that sp by (auto dest: set_takeWhileD)
  have "?R u = takeWhile is_space u @ ?R (d # w)"
    by (subst u, rule replace_all_prefix_chars) (simp add: heredoc_closed_other spaces)
  moreover have "d \<noteq> 60"
    using d sp by auto
  then have "?R (d # w) = d # ?R w"
    by (simp add: heredoc_closed_other)
  moreover have "?R w = e # ?R x" if "w = e # x" "is_word e" for e x
  proof -
    from that sp have "e \<noteq> 60"
      by auto
    then show ?thesis
      using that(1) by (simp add: heredoc_closed_other)
  qed
  ultimately have "\<exists>w'. ?R u = takeWhile is_space u @ d # w'
      \<and> (is_word d \<or> (is_quote d \<and> (case w' of [] \<Rightarrow> False | e # _ \<Rightarrow> is_word e)))"
    using d by (auto split: list.splits)
  then obtain w' where w': "?R u = takeWhile is_space u @ d # w'"
    "is_word d \<or> (is_quote d \<and> (case w' of [] \<Rightarrow> False | e # _ \<Rightarrow> is_word e))"
    by blast
  have "dropWhile is_space (takeWhile is_space u @ d # w') = d # w'"
    using nd by (simp add: dropWhile_append) (auto dest: set_takeWhileD)
  then have "heredoc_start (60 # 60 # ?R u)"
    using w' by (simp add: heredoc_start_def)
  moreover have "?R rest = 60 # 60 # ?R u"
    using assms(2) second rest by simp
  ultimately show ?thesis
    using rest by simp
qed

section \<open>The quote passes in their order\<close>

text \<open>After an even number of its quotes a pass starts afresh.\<close>

lemma count_after_close:
  assumes "q \<in> set p"
  shows "count_list (tl (dropWhile (\<lambda>c. c \<noteq> q) p)) q = count_list p q - 1"
  using assms by (induction p) auto

lemma count_pos: "q \<in> set p \<longleftrightarrow> 0 < count_list p q"
  by (induction p) auto

lemma quote_pass_even:
  assumes "even (count_list pre q)"
  shows "replace_all (quoted q) rep (pre @ s) = replace_all (quoted q) rep pre @ replace_all (quoted q) rep s"
  using assms
proof (induction pre rule: length_induct)
  case (1 a)
  show ?case
  proof (cases a)
    case Nil
    then show ?thesis
      by (simp add: quoted_Nil)
  next
    case (Cons c a')
    show ?thesis
    proof (cases "c = q")
      case True
      with Cons "1.prems" have odd: "odd (count_list a' q)"
        by simp
      then have mem: "q \<in> set a'"
        by (auto simp: count_pos elim: oddE)
      let ?r = "tl (dropWhile (\<lambda>c. c \<noteq> q) a')"
      from mem have dw: "dropWhile (\<lambda>c. c \<noteq> q) (a' @ s) = dropWhile (\<lambda>c. c \<noteq> q) a' @ s"
        by (auto simp: dropWhile_append)
      from mem have ne: "dropWhile (\<lambda>c. c \<noteq> q) a' \<noteq> []"
        by auto
      have len: "length ?r < length a"
        using Cons length_dropWhile_le [of "\<lambda>c. c \<noteq> q" a'] by simp
      have ev: "even (count_list ?r q)"
        using odd mem by (simp add: count_after_close)
      have m1: "quoted q (c # a' @ s) = [?r @ s]"
        using True mem dw ne by (simp add: quoted_Cons)
      have m2: "quoted q (c # a') = [?r]"
        using True mem by (simp add: quoted_Cons)
      have "replace_all (quoted q) rep (a @ s) = rep @ replace_all (quoted q) rep (?r @ s)"
        using len Cons by (intro replace_all_match [where rs = "[]"]) (simp_all add: m1)
      moreover have "replace_all (quoted q) rep (?r @ s) = replace_all (quoted q) rep ?r @ replace_all (quoted q) rep s"
        using 1 len ev by simp
      moreover have "replace_all (quoted q) rep a = rep @ replace_all (quoted q) rep ?r"
        using len Cons by (intro replace_all_match [where rs = "[]"]) (simp_all add: m2)
      ultimately show ?thesis
        by simp
    next
      case False
      then have "quoted q (c # a' @ s) = []" "quoted q (c # a') = []"
        by (auto simp: quoted_Cons)
      moreover from False Cons "1.prems" have "even (count_list a' q)"
        by simp
      ultimately show ?thesis
        using 1 Cons by simp
    qed
  qed
qed

text \<open>A span of the quote of a pass, after an even number of quotes of that type.\<close>

lemma quote_pass_span_even:
  assumes "even (count_list pre q)" and "q \<notin> set body"
  shows "replace_all (quoted q) rep (pre @ q # body @ q # post) =
           replace_all (quoted q) rep pre @ rep @ replace_all (quoted q) rep post"
  using quote_pass_even [OF assms(1), of rep "q # body @ q # post"]
    quote_pass_span [of q "[]" body rep post] assms(2) by simp


lemma quote_pass_skip:
  assumes "even (count_list pre p)" and "p \<notin> set mid"
  shows "replace_all (quoted p) rep (pre @ mid @ post) =
           replace_all (quoted p) rep pre @ mid @ replace_all (quoted p) rep post"
  using quote_pass_even [OF assms(1), of rep "mid @ post"]
    quote_pass_prefix [OF assms(2), of rep post] by simp

lemma quote_pass_set: "c \<in> set (replace_all (quoted q) [q, q] s) \<Longrightarrow> c \<in> set s \<or> c = q"
proof (induction s rule: length_induct)
  case (1 s)
  show ?case
  proof (cases s)
    case Nil
    with "1.prems" show ?thesis
      by (simp add: quoted_Nil)
  next
    case (Cons a t)
    show ?thesis
    proof (cases "a = q \<and> q \<in> set t")
      case True
      let ?r = "tl (dropWhile (\<lambda>c. c \<noteq> q) t)"
      have len: "length ?r < length s"
        using Cons length_dropWhile_le [of "\<lambda>c. c \<noteq> q" t] by simp
      have m: "quoted q (a # t) = [?r]"
        using True by (simp add: quoted_Cons)
      have "replace_all (quoted q) [q, q] s = [q, q] @ replace_all (quoted q) [q, q] ?r"
        using len Cons by (intro replace_all_match [where rs = "[]"]) (simp_all add: m)
      with "1.prems" have "c = q \<or> c \<in> set (replace_all (quoted q) [q, q] ?r)"
        by auto
      moreover have "set ?r \<subseteq> set t"
        by (metis list.sel(2) list.set_sel(2) set_dropWhileD subsetI)
      ultimately show ?thesis
        using 1 len Cons by auto
    next
      case False
      then have "quoted q (a # t) = []"
        by (auto simp: quoted_Cons)
      with "1.prems" Cons have "c = a \<or> c \<in> set (replace_all (quoted q) [q, q] t)"
        by auto
      then show ?thesis
        using 1 Cons by auto
    qed
  qed
qed

lemma quote_pass_wrap:
  assumes "p \<noteq> q" and "even (count_list pre p)" and "even (count_list body p)"
  shows "replace_all (quoted p) rep (pre @ q # body @ q # post) =
     replace_all (quoted p) rep pre @ q # replace_all (quoted p) rep body @ q # replace_all (quoted p) rep post"
proof -
  let ?R = "replace_all (quoted p) rep"
  have q: "p \<notin> set [q]"
    using assms(1) by simp
  have "?R (pre @ q # body @ q # post) = ?R pre @ ?R ([q] @ body @ q # post)"
    using quote_pass_even [OF assms(2), of rep "q # body @ q # post"] by simp
  also have "?R ([q] @ body @ q # post) = [q] @ ?R (body @ q # post)"
    using q by (rule quote_pass_prefix)
  also have "?R (body @ q # post) = ?R body @ ?R ([q] @ post)"
    using quote_pass_even [OF assms(3), of rep "q # post"] by simp
  also have "?R ([q] @ post) = [q] @ ?R post"
    using q by (rule quote_pass_prefix)
  finally show ?thesis
    by simp
qed

text \<open>Emptying a quoted span makes no heredoc start.\<close>

lemma no_heredoc_append:
  "no_heredoc (a @ b) \<longleftrightarrow> (\<forall>k<length a. \<not> heredoc_start (drop k a @ b)) \<and> no_heredoc b"
proof (induction a)
  case Nil
  then show ?case by simp
next
  case (Cons c a)
  have "(\<forall>k<Suc (length a). \<not> heredoc_start (drop k (c # a) @ b)) \<longleftrightarrow>
      \<not> heredoc_start (c # a @ b) \<and> (\<forall>k<length a. \<not> heredoc_start (drop k a @ b))"
    by (auto simp: less_Suc_eq_0_disj)
  with Cons show ?case
    by auto
qed

lemma no_heredoc_drop: "no_heredoc s \<Longrightarrow> \<not> heredoc_start (drop k s)"
proof (induction s arbitrary: k)
  case Nil
  then show ?case by (simp add: heredoc_start_Nil)
next
  case (Cons c s)
  then show ?case
    by (cases k) auto
qed

lemma strip_heredocs_none:
  assumes "no_heredoc s"
  shows "strip_heredocs s = s"
proof -
  have "\<not> heredoc_start (drop k s)" for k
    using assms by (rule no_heredoc_drop)
  then have "heredoc_closed (drop k s) = []" "heredoc_open (drop k s) = []" for k
    using heredoc_closed_start [of "drop k s"] heredoc_open_start [of "drop k s"]
    by (auto simp: test_def)
  then show ?thesis
    by (simp add: strip_heredocs_def replace_all_none)
qed

lemma heredoc_start_before_pair:
  assumes "q \<in> {34, 39, 96}" and "heredoc_start (x @ q # q # p)"
  shows "heredoc_start x"
proof -
  have sp: "\<not> is_space q" "\<not> is_word q" "q \<noteq> 60"
    using assms(1) by (auto simp: char_classes)
  show ?thesis
  proof (cases x)
    case Nil
    with assms(2) sp show ?thesis
      by (simp add: heredoc_start_def)
  next
    case (Cons a x')
    show ?thesis
    proof (cases x')
      case Nil
      with Cons assms(2) sp show ?thesis
        by (simp add: heredoc_start_def)
    next
      case (Cons b x'')
      show ?thesis
      proof (cases "\<forall>c\<in>set x''. is_space c")
        case True
        then have "dropWhile is_space (x'' @ q # q # p) = q # q # p"
          using sp by (simp add: dropWhile_append)
        with \<open>x = a # x'\<close> Cons sp assms(2) show ?thesis
          by (simp add: heredoc_start_def)
      next
        case False
        then have dw: "dropWhile is_space (x'' @ q # q # p) = dropWhile is_space x'' @ q # q # p"
          by (auto simp: dropWhile_append)
        from False obtain d w where "dropWhile is_space x'' = d # w"
          by (cases "dropWhile is_space x''") auto
        with \<open>x = a # x'\<close> Cons sp dw assms(2) show ?thesis
          by (cases w) (simp_all add: heredoc_start_def)
      qed
    qed
  qed
qed

lemma no_heredoc_emptied:
  assumes "q \<in> {34, 39, 96}" and "no_heredoc (pre @ q # body @ q # post)"
  shows "no_heredoc (pre @ q # q # post)"
proof -
  have q: "q \<noteq> 60"
    using assms(1) by auto
  from assms(2) have pre: "\<forall>k<length pre. \<not> heredoc_start (drop k pre @ q # body @ q # post)"
    and rest: "no_heredoc (q # body @ q # post)"
    using no_heredoc_append [of pre "q # body @ q # post"] by blast+
  from rest have "no_heredoc ((q # body) @ q # post)"
    by (simp only: append_Cons)
  then have "no_heredoc (q # post)"
    using no_heredoc_append [of "q # body" "q # post"] by blast
  moreover have "\<not> heredoc_start (q # q # post)"
    using q by (simp add: heredoc_start_def)
  ultimately have "no_heredoc (q # q # post)"
    by (simp only: no_heredoc.simps simp_thms)
  moreover have "\<not> heredoc_start (drop k pre @ q # q # post)" if "k < length pre" for k
  proof
    assume "heredoc_start (drop k pre @ q # q # post)"
    then have "heredoc_start (drop k pre)"
      by (rule heredoc_start_before_pair [OF assms(1)])
    then have "heredoc_start (drop k pre @ q # body @ q # post)"
      by (rule heredoc_start_append)
    with pre that show False
      by blast
  qed
  ultimately show ?thesis
    using no_heredoc_append [of pre "q # q # post"] by blast
qed

text \<open>The three quote passes on a span and on a lone quote, in the order of the source.\<close>

lemma strip_strings_passes:
  "strip_strings s = quote_pass 96 (quote_pass 39 (quote_pass 34 s))"
  by (simp add: strip_strings_def)

lemma strip_strings_mid:
  assumes "balanced pre" and "no_quotes mid"
  shows "strip_strings (pre @ mid @ post) = strip_strings pre @ mid @ strip_strings post"
  using assms by (simp add: strip_strings_def balanced_def no_quotes_def quote_pass_skip)

lemma span_double:
  assumes "even (count_list pre 34)" and "34 \<notin> set body"
  shows "quote_pass 34 (pre @ 34 # body @ 34 # post) = quote_pass 34 pre @ [34, 34] @ quote_pass 34 post"
  using assms by (rule quote_pass_span_even)

lemma span_single:
  assumes "even (count_list pre 34)" and "even (count_list (quote_pass 34 pre) 39)"
    and "even (count_list body 34)" and "39 \<notin> set body"
  shows "quote_pass 39 (quote_pass 34 (pre @ 39 # body @ 39 # post)) =
     quote_pass 39 (quote_pass 34 pre) @ [39, 39] @ quote_pass 39 (quote_pass 34 post)"
proof -
  have "39 \<notin> set (quote_pass 34 body)"
    using assms(4) quote_pass_set [of 39 34 body] by auto
  then show ?thesis
    using quote_pass_wrap [of 34 39 pre body "[34, 34]" post] assms(1,3)
      quote_pass_span_even [OF assms(2), of "quote_pass 34 body" "[39, 39]" "quote_pass 34 post"]
    by simp
qed

lemma span_backtick:
  assumes "balanced pre" and "even (count_list body 34)"
    and "even (count_list (quote_pass 34 body) 39)" and "96 \<notin> set body"
  shows "strip_strings (pre @ 96 # body @ 96 # post) = strip_strings pre @ [96, 96] @ strip_strings post"
proof -
  from assms(1) have e: "even (count_list pre 34)" "even (count_list (quote_pass 34 pre) 39)"
    "even (count_list (quote_pass 39 (quote_pass 34 pre)) 96)"
    by (simp_all add: balanced_def)
  have "96 \<notin> set (quote_pass 34 body)"
    using assms(4) quote_pass_set [of 96 34 body] by auto
  then have b: "96 \<notin> set (quote_pass 39 (quote_pass 34 body))"
    using quote_pass_set [of 96 39 "quote_pass 34 body"] by auto
  have 1: "quote_pass 34 (pre @ 96 # body @ 96 # post) =
      quote_pass 34 pre @ 96 # quote_pass 34 body @ 96 # quote_pass 34 post"
    using quote_pass_wrap [of 34 96 pre body "[34, 34]" post] e(1) assms(2) by simp
  have 2: "quote_pass 39 (quote_pass 34 pre @ 96 # quote_pass 34 body @ 96 # quote_pass 34 post) =
      quote_pass 39 (quote_pass 34 pre) @ 96 # quote_pass 39 (quote_pass 34 body) @ 96
        # quote_pass 39 (quote_pass 34 post)"
    using quote_pass_wrap [of 39 96 "quote_pass 34 pre" "quote_pass 34 body" "[39, 39]" "quote_pass 34 post"]
      e(2) assms(3) by simp
  show ?thesis
    using quote_pass_span_even [OF e(3) b, of "[96, 96]" "quote_pass 39 (quote_pass 34 post)"]
    by (simp add: strip_strings_def 1 2)
qed

lemma strip_strings_span_double:
  assumes "balanced pre" and "34 \<notin> set body"
  shows "strip_strings (pre @ 34 # body @ 34 # post) = strip_strings pre @ [34, 34] @ strip_strings post"
proof -
  from assms(1) have e: "even (count_list pre 34)" "even (count_list (quote_pass 34 pre) 39)"
    "even (count_list (quote_pass 39 (quote_pass 34 pre)) 96)"
    by (simp_all add: balanced_def)
  have b: "39 \<notin> set [34::nat, 34]" "96 \<notin> set [34::nat, 34]"
    by simp_all
  from quote_pass_skip [OF e(2) b(1), of "[39, 39]" "quote_pass 34 post"]
  have 2: "quote_pass 39 (quote_pass 34 pre @ 34 # 34 # quote_pass 34 post) =
      quote_pass 39 (quote_pass 34 pre) @ 34 # 34 # quote_pass 39 (quote_pass 34 post)"
    by simp
  from quote_pass_skip [OF e(3) b(2), of "[96, 96]" "quote_pass 39 (quote_pass 34 post)"]
  have 3: "quote_pass 96 (quote_pass 39 (quote_pass 34 pre) @ 34 # 34 # quote_pass 39 (quote_pass 34 post)) =
      strip_strings pre @ 34 # 34 # strip_strings post"
    by (simp add: strip_strings_def)
  show ?thesis
    using span_double [OF e(1) assms(2), of post] by (simp add: strip_strings_passes 2 3)
qed

lemma strip_strings_span_single:
  assumes "balanced pre" and "even (count_list body 34)" and "39 \<notin> set body"
  shows "strip_strings (pre @ 39 # body @ 39 # post) = strip_strings pre @ [39, 39] @ strip_strings post"
proof -
  from assms(1) have e: "even (count_list pre 34)" "even (count_list (quote_pass 34 pre) 39)"
    "even (count_list (quote_pass 39 (quote_pass 34 pre)) 96)"
    by (simp_all add: balanced_def)
  have b: "96 \<notin> set [39::nat, 39]"
    by simp
  from quote_pass_skip [OF e(3) b, of "[96, 96]" "quote_pass 39 (quote_pass 34 post)"]
  have 3: "quote_pass 96 (quote_pass 39 (quote_pass 34 pre) @ 39 # 39 # quote_pass 39 (quote_pass 34 post)) =
      strip_strings pre @ 39 # 39 # strip_strings post"
    by (simp add: strip_strings_def)
  show ?thesis
    using span_single [OF e(1,2) assms(2,3), of post] by (simp add: strip_strings_passes 3)
qed

lemma extract_same_strings:
  assumes "no_heredoc a" and "no_heredoc b" and "strip_strings a = strip_strings b"
  shows "extractExecutables a = extractExecutables b"
  using assms by (simp add: extractExecutables_def clean_def strip_heredocs_none)

lemma extract_span_double:
  assumes "even (count_list pre 34)" and "34 \<notin> set body"
    and "no_heredoc (pre @ 34 # body @ 34 # post)"
  shows "extractExecutables (pre @ 34 # body @ 34 # post) = extractExecutables (pre @ 34 # 34 # post)"
proof (rule extract_same_strings [OF assms(3)])
  show "no_heredoc (pre @ 34 # 34 # post)"
    using assms(3) by (intro no_heredoc_emptied [of 34 pre body post]) simp_all
  have "quote_pass 34 (pre @ 34 # body @ 34 # post) = quote_pass 34 (pre @ 34 # [] @ 34 # post)"
    using span_double [OF assms(1,2), of post] span_double [OF assms(1), of "[]" post] by simp
  then show "strip_strings (pre @ 34 # body @ 34 # post) = strip_strings (pre @ 34 # 34 # post)"
    by (simp add: strip_strings_passes)
qed

lemma extract_span_single:
  assumes "even (count_list pre 34)" and "even (count_list (quote_pass 34 pre) 39)"
    and "even (count_list body 34)" and "39 \<notin> set body"
    and "no_heredoc (pre @ 39 # body @ 39 # post)"
  shows "extractExecutables (pre @ 39 # body @ 39 # post) = extractExecutables (pre @ 39 # 39 # post)"
proof (rule extract_same_strings [OF assms(5)])
  show "no_heredoc (pre @ 39 # 39 # post)"
    using assms(5) by (intro no_heredoc_emptied [of 39 pre body post]) simp_all
  have "quote_pass 39 (quote_pass 34 (pre @ 39 # body @ 39 # post)) =
      quote_pass 39 (quote_pass 34 (pre @ 39 # [] @ 39 # post))"
    using span_single [OF assms(1-4), of post] span_single [OF assms(1,2), of "[]" post] by simp
  then show "strip_strings (pre @ 39 # body @ 39 # post) = strip_strings (pre @ 39 # 39 # post)"
    by (simp add: strip_strings_passes)
qed

lemma extract_span_backtick:
  assumes "balanced pre" and "even (count_list body 34)"
    and "even (count_list (quote_pass 34 body) 39)" and "96 \<notin> set body"
    and "no_heredoc (pre @ 96 # body @ 96 # post)"
  shows "extractExecutables (pre @ 96 # body @ 96 # post) = extractExecutables (pre @ 96 # 96 # post)"
proof (rule extract_same_strings [OF assms(5)])
  show "no_heredoc (pre @ 96 # 96 # post)"
    using assms(5) by (intro no_heredoc_emptied [of 96 pre body post]) simp_all
  have "even (count_list (quote_pass 34 []) 39)"
    by (simp add: quoted_Nil)
  from span_backtick [OF assms(1-4), of post] span_backtick [OF assms(1) _ this, of post]
  show "strip_strings (pre @ 96 # body @ 96 # post) = strip_strings (pre @ 96 # 96 # post)"
    by simp
qed





lemma eval_order:
  "extractExecutables (js ''echo '' @ [34] @ js ''it'' @ [39] @ js ''s'' @ [34] @ js ''; rm '' @ [39] @ js ''x'' @ [39])
     = Inr [js ''echo'', js ''rm'']"
  by (simp add: evaluation)

section \<open>Heredoc terminators\<close>

text \<open>Every match of the first heredoc pattern ends at a line of the marker word or of a beginning of it.\<close>

lemma star_mem_drop: "r \<in> set (star P s) \<Longrightarrow> \<exists>j\<le>length (takeWhile P s). r = drop j s"
proof (induction s)
  case Nil
  then show ?case by simp
next
  case (Cons c s)
  show ?case
  proof (cases "P c \<and> r \<in> set (star P s)")
    case True
    with Cons.IH obtain j where "j \<le> length (takeWhile P s)" "r = drop j s"
      by blast
    with True show ?thesis
      by (intro exI [of _ "Suc j"]) simp
  next
    case False
    with Cons.prems have "r = c # s"
      by (auto split: if_splits)
    then show ?thesis
      by (intro exI [of _ 0]) simp
  qed
qed

lemma lazy_star_mem_drop: "r \<in> set (lazy_star P s) \<Longrightarrow> \<exists>j. r = drop j s"
proof (induction s)
  case Nil
  then show ?case by simp
next
  case (Cons c s)
  show ?case
  proof (cases "r = c # s")
    case True
    then show ?thesis
      by (intro exI [of _ 0]) simp
  next
    case False
    with Cons.prems have "r \<in> set (lazy_star P s)"
      by (auto split: if_splits)
    with Cons.IH obtain j where "r = drop j s"
      by blast
    then show ?thesis
      by (intro exI [of _ "Suc j"]) simp
  qed
qed

lemma line_end_drop:
  assumes "j \<le> length (takeWhile is_space y)" and "drop j y = [] \<or> hd (drop j y) = 10"
  shows "line_end y"
  using assms
proof (induction y arbitrary: j)
  case Nil
  then show ?case by simp
next
  case (Cons c y)
  show ?case
  proof (cases j)
    case 0
    with Cons.prems(2) show ?thesis
      by simp
  next
    case (Suc j')
    with Cons.prems(1) have c: "is_space c" and "j' \<le> length (takeWhile is_space y)"
      by (auto split: if_splits)
    moreover from Suc Cons.prems(2) have "drop j' y = [] \<or> hd (drop j' y) = 10"
      by simp
    ultimately have "line_end y"
      by (intro Cons.IH)
    with c show ?thesis
      by simp
  qed
qed

lemma terminated_drop: "terminated w (drop j x) \<Longrightarrow> terminated w x"
proof (induction x arbitrary: j)
  case Nil
  then show ?case by simp
next
  case (Cons c x)
  then show ?case
    by (cases j) auto
qed

lemma seq_lit_nonempty:
  "seq (lit p) m s \<noteq> [] \<longleftrightarrow> take (length p) s = p \<and> m (drop (length p) s) \<noteq> []"
  by (simp add: seq_def lit_def)

lemma line_pattern:
  assumes "seq (lit [10]) (seq (lit w) (seq (star is_space) (lookahead (alt (lit [10]) eoi)))) r \<noteq> []"
  shows "terminated w r"
proof -
  from assms obtain x where r: "r = 10 # x" and w: "take (length w) x = w"
    and "seq (star is_space) (lookahead (alt (lit [10]) eoi)) (drop (length w) x) \<noteq> []"
    by (cases r) (auto simp: seq_lit_nonempty split: if_splits)
  then obtain r' where r': "r' \<in> set (star is_space (drop (length w) x))"
    "lookahead (alt (lit [10]) eoi) r' \<noteq> []"
    by (auto simp: seq_nonempty)
  from r'(2) have "r' = [] \<or> hd r' = 10"
    by (cases r') (auto simp: lookahead_def alt_def lit_def eoi_def split: if_splits)
  moreover from r'(1) obtain j where "j \<le> length (takeWhile is_space (drop (length w) x))"
    "r' = drop j (drop (length w) x)"
    using star_mem_drop by blast
  ultimately have "line_end (drop (length w) x)"
    by (intro line_end_drop [of j]) simp_all
  with r w show ?thesis
    by simp
qed

lemma body_pattern:
  assumes "seq (opt (cls is_quote)) (seq (lazy_star (\<lambda>c. True)) (seq (lit [10]) (seq (lit w)
            (seq (star is_space) (lookahead (alt (lit [10]) eoi)))))) r \<noteq> []"
  shows "terminated w r"
proof -
  let ?line = "seq (lit [10]) (seq (lit w) (seq (star is_space) (lookahead (alt (lit [10]) eoi))))"
  from assms obtain r1 where r1: "r1 \<in> set (opt (cls is_quote) r)"
    "seq (lazy_star (\<lambda>c. True)) ?line r1 \<noteq> []"
    by (auto simp: seq_nonempty [of "opt (cls is_quote)"])
  then obtain r2 where r2: "r2 \<in> set (lazy_star (\<lambda>c. True) r1)" "?line r2 \<noteq> []"
    by (auto simp: seq_nonempty [of "lazy_star (\<lambda>c. True)"])
  from r1(1) have "r1 = r \<or> r1 = drop 1 r"
    by (auto simp: opt_def cls_def split: list.splits if_splits)
  moreover from r2(1) obtain j where "r2 = drop j r1"
    using lazy_star_mem_drop by blast
  ultimately have "r2 = drop j r \<or> r2 = drop (j + 1) r"
    by auto
  moreover have "terminated w r2"
    using r2(2) by (rule line_pattern)
  ultimately show ?thesis
    using terminated_drop by metis
qed

lemma take_takeWhile: "n \<le> length (takeWhile P xs) \<Longrightarrow> take n (takeWhile P xs) = take n xs"
  by (metis append_eq_conv_conj takeWhile_dropWhile_id take_all take_append diff_is_0_eq' take0 append_Nil2)

lemma heredoc_closed_terminated:
  assumes "heredoc_closed t \<noteq> []"
  shows "\<exists>n. 1 \<le> n \<and> n \<le> length (heredoc_marker t)
     \<and> terminated (take n (heredoc_marker t)) (drop n (marker_text t))"
proof -
  let ?K = "\<lambda>marker. seq (opt (cls is_quote)) (seq (lazy_star (\<lambda>c. True)) (seq (lit [10]) (seq (lit marker)
            (seq (star is_space) (lookahead (alt (lit [10]) eoi))))))"
  from assms obtain u where t: "t = 60 # 60 # u"
    and "seq (star is_space) (seq (opt (cls is_quote)) (capture (many1 is_word) ?K)) u \<noteq> []"
    by (auto simp: heredoc_closed_def js_def seq_lit2 split: if_splits list.splits)
  then obtain r1 where r1: "r1 \<in> set (star is_space u)"
    "seq (opt (cls is_quote)) (capture (many1 is_word) ?K) r1 \<noteq> []"
    by (auto simp: seq_nonempty)
  then obtain r2 where r2: "r2 \<in> set (opt (cls is_quote) r1)" "capture (many1 is_word) ?K r2 \<noteq> []"
    by (auto simp: seq_nonempty)
  from r2(2) obtain r3 where r3: "r3 \<in> set (many1 is_word r2)"
    "?K (take (length r2 - length r3) r2) r3 \<noteq> []"
    by (auto simp: capture_def)
  from r3(1) obtain e x where e: "r2 = e # x" "is_word e" "r3 \<in> set (star is_word x)"
    by (cases r2) (auto split: if_splits)
  from r2(1) have shape: "r1 = r2 \<or> (\<exists>d. r1 = d # r2 \<and> is_quote d)"
    by (auto simp: opt_def cls_def split: list.splits if_splits)
  then have "r1 \<noteq> [] \<and> \<not> is_space (hd r1)"
    using e by (auto simp: quote_not_space)
  with r1(1) have "r1 = dropWhile is_space u"
    by (intro star_mem_stop) simp_all
  with shape e t have mt: "marker_text t = r2"
    by (auto simp: marker_text_def quote_not_space)
  from e(3) obtain j where j: "j \<le> length (takeWhile is_word x)" "r3 = drop j x"
    using star_mem_drop by blast
  let ?n = "Suc j"
  from j e have n: "?n \<le> length (takeWhile is_word r2)" "r3 = drop ?n r2"
    by simp_all
  then have "length r2 - length r3 = ?n"
    using length_takeWhile_le [of is_word r2] by simp
  moreover have "take ?n r2 = take ?n (takeWhile is_word r2)"
    using n(1) by (simp only: take_takeWhile)
  ultimately have "terminated (take ?n (takeWhile is_word r2)) (drop ?n r2)"
    using body_pattern [of "take ?n r2" r3] r3(2) n(2) by simp
  with n(1) mt show ?thesis
    by (intro exI [of _ ?n]) (simp add: heredoc_marker_def)
qed

lemma drop_in_star: "j \<le> length (takeWhile P s) \<Longrightarrow> drop j s \<in> set (star P s)"
proof (induction s arbitrary: j)
  case Nil
  then show ?case by simp
next
  case (Cons c s)
  then show ?case
    by (cases j) (auto split: if_splits)
qed

lemma drop_in_lazy_star: "drop j s \<in> set (lazy_star (\<lambda>c. True) s)"
proof (induction s arbitrary: j)
  case Nil
  then show ?case by simp
next
  case (Cons c s)
  then show ?case
    by (cases j) auto
qed

lemma line_end_star:
  "line_end y \<Longrightarrow> \<exists>r\<in>set (star is_space y). lookahead (alt (lit [10]) eoi) r \<noteq> []"
proof (induction y)
  case Nil
  then show ?case
    by (simp add: lookahead_def alt_def eoi_def lit_def)
next
  case (Cons c y)
  show ?case
  proof (cases "c = 10")
    case True
    then have "lookahead (alt (lit [10]) eoi) (c # y) \<noteq> []"
      by (simp add: lookahead_def alt_def lit_def)
    moreover have "c # y \<in> set (star is_space (c # y))"
      by simp
    ultimately show ?thesis
      by blast
  next
    case False
    with Cons.prems have "is_space c" "line_end y"
      by simp_all
    with Cons.IH show ?thesis
      by auto
  qed
qed

lemma terminated_line:
  "terminated w x \<Longrightarrow> \<exists>j y. drop j x = 10 # w @ y \<and> line_end y"
proof (induction x)
  case Nil
  then show ?case by simp
next
  case (Cons c x)
  show ?case
  proof (cases "c = 10 \<and> take (length w) x = w \<and> line_end (drop (length w) x)")
    case True
    then have "drop 0 (c # x) = 10 # w @ drop (length w) x"
      by (metis append_take_drop_id drop0)
    with True show ?thesis
      by blast
  next
    case False
    with Cons obtain j y where "drop j x = 10 # w @ y" "line_end y"
      by auto
    then have "drop (Suc j) (c # x) = 10 # w @ y \<and> line_end y"
      by simp
    then show ?thesis
      by blast
  qed
qed

lemma pattern_body:
  assumes "terminated w r"
  shows "seq (opt (cls is_quote)) (seq (lazy_star (\<lambda>c. True)) (seq (lit [10]) (seq (lit w)
            (seq (star is_space) (lookahead (alt (lit [10]) eoi)))))) r \<noteq> []"
proof -
  let ?line = "seq (lit [10]) (seq (lit w) (seq (star is_space) (lookahead (alt (lit [10]) eoi))))"
  from assms obtain j y where j: "drop j r = 10 # w @ y" "line_end y"
    using terminated_line by blast
  from j(2) have "seq (star is_space) (lookahead (alt (lit [10]) eoi)) y \<noteq> []"
    using line_end_star by (simp add: seq_nonempty)
  then have "?line (drop j r) \<noteq> []"
    using j(1) by (simp add: seq_lit_nonempty)
  then have "seq (lazy_star (\<lambda>c. True)) ?line r \<noteq> []"
    unfolding seq_nonempty [of "lazy_star (\<lambda>c. True)"] using drop_in_lazy_star by blast
  moreover have "r \<in> set (opt (cls is_quote) r)"
    by (simp add: opt_def)
  ultimately show ?thesis
    unfolding seq_nonempty [of "opt (cls is_quote)"] by blast
qed

text \<open>
  The first heredoc pattern matches at a heredoc start exactly when a later line consists of the
  marker word, or of a shorter beginning of it, and trailing white space.
\<close>

lemma heredoc_closed_iff:
  "test heredoc_closed t \<longleftrightarrow>
     heredoc_start t \<and> (\<exists>n. 1 \<le> n \<and> n \<le> length (heredoc_marker t)
       \<and> terminated (take n (heredoc_marker t)) (drop n (marker_text t)))"
proof
  assume "test heredoc_closed t"
  then have "heredoc_closed t \<noteq> []"
    by (simp add: test_def)
  then show "heredoc_start t \<and> (\<exists>n. 1 \<le> n \<and> n \<le> length (heredoc_marker t)
       \<and> terminated (take n (heredoc_marker t)) (drop n (marker_text t)))"
    using heredoc_closed_start heredoc_closed_terminated by blast
next
  let ?K = "\<lambda>marker. seq (opt (cls is_quote)) (seq (lazy_star (\<lambda>c. True)) (seq (lit [10]) (seq (lit marker)
            (seq (star is_space) (lookahead (alt (lit [10]) eoi))))))"
  assume a: "heredoc_start t \<and> (\<exists>n. 1 \<le> n \<and> n \<le> length (heredoc_marker t)
       \<and> terminated (take n (heredoc_marker t)) (drop n (marker_text t)))"
  then obtain u d w where t: "t = 60 # 60 # u" and dw: "dropWhile is_space u = d # w"
    and d: "is_word d \<or> (is_quote d \<and> (case w of [] \<Rightarrow> False | e # _ \<Rightarrow> is_word e))"
    by (auto simp: heredoc_start_def split: list.splits)
  let ?m = "marker_text t"
  from a obtain n where n: "1 \<le> n" "n \<le> length (takeWhile is_word ?m)"
    "terminated (take n (takeWhile is_word ?m)) (drop n ?m)"
    by (auto simp: heredoc_marker_def)
  from n(1,2) obtain e x where m: "?m = e # x" "is_word e"
    by (cases ?m) (auto split: if_splits)
  from n obtain j where j: "n = Suc j" "j \<le> length (takeWhile is_word x)"
    using m by (cases n) auto
  have "drop j x \<in> set (star is_word x)"
    using j(2) by (rule drop_in_star)
  then have r3: "drop n ?m \<in> set (many1 is_word ?m)"
    using m j(1) by simp
  have "length ?m - length (drop n ?m) = n"
    using n(2) length_takeWhile_le [of is_word ?m] by simp
  moreover have "take n (takeWhile is_word ?m) = take n ?m"
    using n(2) by (rule take_takeWhile)
  ultimately have "?K (take (length ?m - length (drop n ?m)) ?m) (drop n ?m) \<noteq> []"
    using pattern_body [OF n(3)] by simp
  with r3 have "\<exists>r\<in>set (many1 is_word ?m). ?K (take (length ?m - length r) ?m) r \<noteq> []"
    by (rule bexI [rotated])
  then have cap: "capture (many1 is_word) ?K ?m \<noteq> []"
    by (simp add: capture_def)
  have "?m = (if is_quote d then w else d # w)"
    using t dw by (simp add: marker_text_def)
  then have "?m \<in> set (opt (cls is_quote) (d # w))"
    by (simp add: opt_def cls_def)
  with cap have "seq (opt (cls is_quote)) (capture (many1 is_word) ?K) (d # w) \<noteq> []"
    unfolding seq_nonempty [of "opt (cls is_quote)"] by blast
  then have "seq (star is_space) (seq (opt (cls is_quote)) (capture (many1 is_word) ?K)) u \<noteq> []"
    unfolding seq_nonempty [of "star is_space"] using dropWhile_in_star [of is_space u] dw by auto
  then show "test heredoc_closed t"
    using t by (simp add: test_def heredoc_closed_def js_def seq_lit2)
qed

text \<open>The second heredoc pass cuts at a heredoc start whatever stands before it.\<close>

lemma heredoc_start_cut:
  assumes "x \<noteq> []" and "heredoc_start (x @ 60 # 60 # y)"
  shows "heredoc_start x"
proof -
  have sp: "\<not> is_space 60" "\<not> is_word 60" "\<not> is_quote 60"
    by (simp_all add: char_classes)
  show ?thesis
  proof (cases x)
    case Nil
    with assms(1) show ?thesis by simp
  next
    case (Cons a x')
    show ?thesis
    proof (cases x')
      case Nil
      with Cons assms(2) sp show ?thesis
        by (simp add: heredoc_start_def)
    next
      case (Cons b x'')
      show ?thesis
      proof (cases "\<forall>c\<in>set x''. is_space c")
        case True
        then have "dropWhile is_space (x'' @ 60 # 60 # y) = 60 # 60 # y"
          using sp by (simp add: dropWhile_append)
        with \<open>x = a # x'\<close> Cons sp assms(2) show ?thesis
          by (simp add: heredoc_start_def)
      next
        case False
        then have dw: "dropWhile is_space (x'' @ 60 # 60 # y) = dropWhile is_space x'' @ 60 # 60 # y"
          by (auto simp: dropWhile_append)
        from False obtain d w where "dropWhile is_space x'' = d # w"
          by (cases "dropWhile is_space x''") auto
        with \<open>x = a # x'\<close> Cons sp dw assms(2) show ?thesis
          by (cases w) (simp_all add: heredoc_start_def)
      qed
    qed
  qed
qed

lemma strip_open_at_start:
  assumes "heredoc_start c"
  shows "replace_all heredoc_open [] c = []"
  using strip_open [of c "[]"] assms by (simp add: heredoc_open_start)

lemma strip_open_cut:
  assumes "heredoc_start (60 # 60 # y)"
  shows "replace_all heredoc_open [] (x @ 60 # 60 # y) = replace_all heredoc_open [] x"
proof (induction x)
  case Nil
  show ?case
    using strip_open_at_start [OF assms] by (simp add: heredoc_Nil)
next
  case (Cons a x)
  show ?case
  proof (cases "heredoc_start ((a # x) @ 60 # 60 # y)")
    case True
    then have "heredoc_start (a # x)"
      by (intro heredoc_start_cut [of "a # x" y]) simp_all
    then have "replace_all heredoc_open [] (a # x) = []"
      by (rule strip_open_at_start)
    moreover have "replace_all heredoc_open [] ((a # x) @ 60 # 60 # y) = []"
      using True by (rule strip_open_at_start)
    ultimately show ?thesis
      by simp
  next
    case False
    then have "heredoc_open (a # x @ 60 # 60 # y) = []"
      using heredoc_open_start [of "a # x @ 60 # 60 # y"] by (simp add: test_def)
    moreover from False have "\<not> heredoc_start (a # x)"
      using heredoc_start_append [of "a # x" "60 # 60 # y"] by blast
    then have "heredoc_open (a # x) = []"
      using heredoc_open_start [of "a # x"] by (simp add: test_def)
    ultimately show ?thesis
      using Cons by simp
  qed
qed

text \<open>
  An unterminated heredoc start that the first pass reaches takes the rest of the input with it.
\<close>

lemma strip_heredocs_apart:
  assumes "heredoc_start rest" and "heredoc_closed rest = []"
    and "replace_all heredoc_closed [] (pre @ rest) = x @ replace_all heredoc_closed [] rest"
  shows "strip_heredocs (pre @ rest) = replace_all heredoc_open [] x"
proof -
  from strip_closed_keeps_start [OF assms(1,2)] obtain y y' where y: "rest = 60 # 60 # y"
    "replace_all heredoc_closed [] rest = 60 # 60 # y'" "heredoc_start (60 # 60 # y')"
    by blast
  show ?thesis
    using strip_open_cut [OF y(3)] by (simp add: strip_heredocs_def assms(3) y(2))
qed

lemma strip_closed_leftmost:
  assumes "\<forall>k<length pre. \<not> test heredoc_open (drop k (pre @ rest))"
  shows "replace_all heredoc_closed [] (pre @ rest) =
           replace_all heredoc_closed [] pre @ replace_all heredoc_closed [] rest"
    and "strip_heredocs pre = pre"
proof -
  from assms have left: "\<forall>k<length pre. \<not> test heredoc_open (drop k pre @ rest)"
    by simp
  then show p: "strip_heredocs pre = pre"
    by (rule strip_heredocs_prefix_free)
  have "heredoc_closed (drop k pre @ rest) = []" if "k < length pre" for k
    using that left heredoc_closed_start [of "drop k pre @ rest"]
    by (auto simp: heredoc_open_start)
  then have 1: "replace_all heredoc_closed [] (pre @ rest) = pre @ replace_all heredoc_closed [] rest"
    by (rule replace_all_prefix)
  have "heredoc_closed (drop k pre) = []" for k
  proof (cases "k < length pre")
    case True
    with left have "\<not> heredoc_start (drop k pre)"
      by (auto simp: heredoc_open_start dest: heredoc_start_append)
    then show ?thesis
      using heredoc_closed_start by blast
  next
    case False
    then show ?thesis
      by (simp add: heredoc_Nil)
  qed
  then have "replace_all heredoc_closed [] pre = pre"
    by (rule replace_all_none)
  with 1 show "replace_all heredoc_closed [] (pre @ rest) =
           replace_all heredoc_closed [] pre @ replace_all heredoc_closed [] rest"
    by simp
qed

lemma eval_second_heredoc:
  "extractExecutables (js ''cat <<A\<newline>x\<newline>A\<newline>ls <<B\<newline>rm x'') = Inr [js ''cat'', js ''ls'']"
  by (simp add: evaluation)

lemma unterminated_closed:
  assumes "\<not> terminated (heredoc_marker rest) (drop (length (heredoc_marker rest)) (marker_text rest))"
    and "\<forall>n. 1 \<le> n \<and> n < length (heredoc_marker rest) \<longrightarrow>
           \<not> terminated (take n (heredoc_marker rest)) (drop n (marker_text rest))"
  shows "heredoc_closed rest = []"
proof (rule ccontr)
  assume "heredoc_closed rest \<noteq> []"
  then obtain n where n: "1 \<le> n" "n \<le> length (heredoc_marker rest)"
    "terminated (take n (heredoc_marker rest)) (drop n (marker_text rest))"
    using heredoc_closed_terminated by blast
  show False
  proof (cases "n = length (heredoc_marker rest)")
    case True
    with n(3) assms(1) show ?thesis
      by simp
  next
    case False
    with n assms(2) show ?thesis
      by (simp add: le_less)
  qed
qed

text \<open>
  The pattern refers back to the marker word with \<open>\1\<close> after a greedy \<open>\w+\<close>, which gives characters
  back when the whole word has no terminator line. In \<open>cat <<EOF\nE\nrm x\<close> no line consists of the
  marker word \<open>EOF\<close>; the line \<open>E\<close> ends the heredoc all the same, and \<open>rm\<close> after it is reported, while
  the text before the heredoc start gives \<open>["cat"]\<close> only.
\<close>

lemma marker_beginning_terminates:
  "heredoc_marker (js ''<<EOF\<newline>E\<newline>rm x'') = js ''EOF''
   \<and> \<not> terminated (js ''EOF'') (js ''\<newline>E\<newline>rm x'')
   \<and> terminated (js ''E'') (js ''OF\<newline>E\<newline>rm x'')
   \<and> extractExecutables (js ''cat '' @ js ''<<EOF\<newline>E\<newline>rm x'') = Inr [js ''cat'', js ''rm'']
   \<and> extractExecutables (js ''cat '') = Inr [js ''cat'']"
proof (intro conjI)
  show "heredoc_marker (js ''<<EOF\<newline>E\<newline>rm x'') = js ''EOF''"
    by (simp add: heredoc_marker_def marker_text_def char_classes js_def)
  show "\<not> terminated (js ''EOF'') (js ''\<newline>E\<newline>rm x'')"
    by (simp add: char_classes js_def)
  show "terminated (js ''E'') (js ''OF\<newline>E\<newline>rm x'')"
    by (simp add: char_classes js_def)
  show "extractExecutables (js ''cat '' @ js ''<<EOF\<newline>E\<newline>rm x'') = Inr [js ''cat'', js ''rm'']"
    by (simp add: evaluation)
  show "extractExecutables (js ''cat '') = Inr [js ''cat'']"
    by (simp add: evaluation)
qed

section \<open>The claims\<close>

text \<open>
  C1. For every input the extractor returns a list; each of its elements is a non-empty string
  that matches \<open>^[A-Za-z0-9_-]+( [A-Za-z0-9_-]+)?$\<close>; the list has no duplicates; and it is the
  sequence of the identities pushed for the scanned segments, in their order, with every
  occurrence after the first left out.
\<close>

theorem extractExecutables_invariant:
  "\<exists>ids. extractExecutables command = Inr ids
     \<and> (\<forall>e\<in>set ids. e \<noteq> [] \<and> test identity_pattern e)
     \<and> distinct ids
     \<and> ids = rev (remdups (rev (concat (map pushed (js_split separators (clean command))))))"
proof -
  let ?ids = "rev (remdups (rev (identities (js_split separators (clean command)))))"
  have "extractExecutables command = Inr ?ids"
    by (rule extractExecutables_pure)
  moreover have "\<forall>e\<in>set ?ids. e \<noteq> [] \<and> test identity_pattern e"
    using identities_pattern by simp
  moreover have "distinct ?ids"
    by simp
  ultimately show ?thesis
    by (simp add: concat_pushed)
qed

theorem extractExecutables_invariant_witness:
  "extractExecutables (js ''ls -la /tmp; git status; ls'') = Inr [js ''ls'', js ''git status'']
     \<and> test identity_pattern (js ''ls'') \<and> test identity_pattern (js ''git status'')
     \<and> distinct [js ''ls'', js ''git status'']
     \<and> concat (map pushed (js_split separators (clean (js ''ls -la /tmp; git status; ls''))))
         = [js ''ls'', js ''git status'', js ''ls'']"
proof -
  have e: "extractExecutables (js ''ls -la /tmp; git status; ls'') = Inr [js ''ls'', js ''git status'']"
    by (simp add: extractExecutables_pure passes scanning matchers char_classes js_def)
  have p: "concat (map pushed (js_split separators (clean (js ''ls -la /tmp; git status; ls''))))
         = [js ''ls'', js ''git status'', js ''ls'']"
    unfolding concat_pushed
    by (simp add: passes scanning matchers char_classes js_def)
  from extractExecutables_invariant [of "js ''ls -la /tmp; git status; ls''"] e p show ?thesis
    by auto
qed

text \<open>
  C2. The extractor is total: for every input it returns a list and never throws; on the empty
  string it returns the empty list.
\<close>

theorem extractExecutables_total:
  "(\<exists>ids. extractExecutables command = Inr ids) \<and> extractExecutables [] = Inr []"
proof
  show "\<exists>ids. extractExecutables command = Inr ids"
    by (simp add: extractExecutables_pure)
  show "extractExecutables [] = Inr []"
    by (simp add: extractExecutables_pure passes scanning matchers)
qed

text \<open>
  C3 (as the code has it). Take a heredoc-looking construct of the input (\<open><<\<close>, white space, an
  optional quote, a marker word) after which no line consists of the marker word and trailing
  white space, and none of a shorter beginning of that word. When the first pass does not remove
  the construct with a heredoc that starts before it, so that it leaves of the input a text \<open>x\<close>
  followed by what it leaves of the text from the construct on, the heredoc passes leave of the
  input what the second pass leaves of \<open>x\<close>: everything from the start of the construct to the end
  of the input is removed before scanning. When moreover \<open>x\<close> is what the first pass leaves of the
  text before the construct taken alone, the heredoc passes leave of the input what they leave of
  that text, and the output equals the extraction of the prefix that precedes the construct. This
  is so whenever the construct is the leftmost of the input; then the heredoc passes leave the
  prefix itself. \<open>cat <<A\nx\nA\nls <<B\nrm x\<close> gives \<open>["cat", "ls"]\<close>.
\<close>

theorem unterminated_heredoc:
  assumes "test heredoc_open rest"
    and "\<not> terminated (heredoc_marker rest) (drop (length (heredoc_marker rest)) (marker_text rest))"
    and "\<forall>n. 1 \<le> n \<and> n < length (heredoc_marker rest) \<longrightarrow>
           \<not> terminated (take n (heredoc_marker rest)) (drop n (marker_text rest))"
  shows "(replace_all heredoc_closed [] (pre @ rest) = x @ replace_all heredoc_closed [] rest \<longrightarrow>
          strip_heredocs (pre @ rest) = replace_all heredoc_open [] x)
    \<and> (replace_all heredoc_closed [] (pre @ rest) =
            replace_all heredoc_closed [] pre @ replace_all heredoc_closed [] rest \<longrightarrow>
          strip_heredocs (pre @ rest) = strip_heredocs pre
          \<and> extractExecutables (pre @ rest) = extractExecutables pre)
    \<and> ((\<forall>k<length pre. \<not> test heredoc_open (drop k (pre @ rest))) \<longrightarrow>
          strip_heredocs (pre @ rest) = pre
          \<and> extractExecutables (pre @ rest) = extractExecutables pre)
    \<and> extractExecutables (js ''cat <<A\<newline>x\<newline>A\<newline>ls <<B\<newline>rm x'') = Inr [js ''cat'', js ''ls'']"
proof (intro conjI impI)
  have hs: "heredoc_start rest"
    using assms(1) by (simp add: heredoc_open_start)
  have hc: "heredoc_closed rest = []"
    using assms(2,3) by (rule unterminated_closed)
  {
    assume "replace_all heredoc_closed [] (pre @ rest) = x @ replace_all heredoc_closed [] rest"
    with hs hc show "strip_heredocs (pre @ rest) = replace_all heredoc_open [] x"
      by (rule strip_heredocs_apart)
  }
  {
    assume "replace_all heredoc_closed [] (pre @ rest) =
            replace_all heredoc_closed [] pre @ replace_all heredoc_closed [] rest"
    with hs hc have "strip_heredocs (pre @ rest) = replace_all heredoc_open [] (replace_all heredoc_closed [] pre)"
      by (rule strip_heredocs_apart)
    then show s: "strip_heredocs (pre @ rest) = strip_heredocs pre"
      by (simp add: strip_heredocs_def)
    then show "extractExecutables (pre @ rest) = extractExecutables pre"
      by (simp add: extractExecutables_def clean_def)
  }
  {
    assume left: "\<forall>k<length pre. \<not> test heredoc_open (drop k (pre @ rest))"
    from strip_closed_leftmost(1) [OF left] hs hc
    have "strip_heredocs (pre @ rest) = replace_all heredoc_open [] (replace_all heredoc_closed [] pre)"
      by (intro strip_heredocs_apart)
    with strip_closed_leftmost(2) [OF left] show s: "strip_heredocs (pre @ rest) = pre"
      by (simp add: strip_heredocs_def)
    with strip_closed_leftmost(2) [OF left]
    show "extractExecutables (pre @ rest) = extractExecutables pre"
      by (simp add: extractExecutables_def clean_def)
  }
  show "extractExecutables (js ''cat <<A\<newline>x\<newline>A\<newline>ls <<B\<newline>rm x'') = Inr [js ''cat'', js ''ls'']"
    by (rule eval_second_heredoc)
qed

theorem unterminated_heredoc_witness:
  "strip_heredocs (js ''cat <<A\<newline>x\<newline>A\<newline>'' @ js ''<<EOF\<newline>rm x'') = js ''cat \<newline>''
   \<and> strip_heredocs (js ''cat <<A\<newline>x\<newline>A\<newline>ls '' @ js ''<<EOF\<newline>rm x'') = js ''cat \<newline>ls ''
   \<and> extractExecutables (js ''cat <<A\<newline>x\<newline>A\<newline>ls '' @ js ''<<EOF\<newline>rm x'') = Inr [js ''cat'', js ''ls'']
   \<and> strip_heredocs (js ''cat '' @ js ''<<EOF\<newline>rm x'') = js ''cat ''
   \<and> extractExecutables (js ''cat '' @ js ''<<EOF\<newline>rm x'') = Inr [js ''cat'']"
proof -
  let ?pre = "js ''cat <<A\<newline>x\<newline>A\<newline>ls ''" and ?rest = "js ''<<EOF\<newline>rm x''"
  let ?line = "js ''cat <<A\<newline>x\<newline>A\<newline>''"
  have 1: "test heredoc_open ?rest"
    by (simp add: matchers char_classes js_def)
  have m: "heredoc_marker ?rest = js ''EOF''" "marker_text ?rest = js ''EOF\<newline>rm x''"
    by (simp_all add: heredoc_marker_def marker_text_def char_classes js_def)
  have 2: "\<not> terminated (heredoc_marker ?rest) (drop (length (heredoc_marker ?rest)) (marker_text ?rest))"
    unfolding m by (simp add: char_classes js_def)
  have 3: "\<forall>n. 1 \<le> n \<and> n < length (heredoc_marker ?rest) \<longrightarrow>
           \<not> terminated (take n (heredoc_marker ?rest)) (drop n (marker_text ?rest))"
  proof (intro allI impI)
    fix n assume "1 \<le> n \<and> n < length (heredoc_marker ?rest)"
    then have "n = 1 \<or> n = 2"
      unfolding m by (auto simp: js_def)
    then show "\<not> terminated (take n (heredoc_marker ?rest)) (drop n (marker_text ?rest))"
      unfolding m by (auto simp: char_classes js_def numeral_2_eq_2)
  qed
  have 4: "replace_all heredoc_closed [] (?pre @ ?rest) =
            replace_all heredoc_closed [] ?pre @ replace_all heredoc_closed [] ?rest"
    by (simp add: matchers char_classes js_def)
  have 5: "strip_heredocs ?pre = js ''cat \<newline>ls ''"
    by (simp add: passes matchers char_classes js_def)
  have 6: "extractExecutables ?pre = Inr [js ''cat'', js ''ls'']"
    by (simp add: evaluation)
  have 7: "\<forall>k<length (js ''cat ''). \<not> test heredoc_open (drop k (js ''cat '' @ ?rest))"
  proof (intro allI impI)
    fix k assume "k < length (js ''cat '')"
    then have "k < 4"
      by (simp add: js_def)
    then consider "k = 0" | "k = 1" | "k = 2" | "k = 3"
      by linarith
    then show "\<not> test heredoc_open (drop k (js ''cat '' @ ?rest))"
      by cases (simp_all add: js_def test_def heredoc_open_other)
  qed
  have 8: "extractExecutables (js ''cat '') = Inr [js ''cat'']"
    by (simp add: evaluation)
  have 9: "replace_all heredoc_closed [] (?line @ ?rest) =
            js ''cat \<newline>'' @ replace_all heredoc_closed [] ?rest"
    by (simp add: matchers char_classes js_def)
  have 10: "replace_all heredoc_open [] (js ''cat \<newline>'') = js ''cat \<newline>''"
    by (simp add: matchers char_classes js_def)
  from unterminated_heredoc [OF 1 2 3, of ?line "js ''cat \<newline>''"] 9
  have "strip_heredocs (?line @ ?rest) = replace_all heredoc_open [] (js ''cat \<newline>'')"
    by blast
  then have c: "strip_heredocs (?line @ ?rest) = js ''cat \<newline>''"
    by (simp only: 10)
  from unterminated_heredoc [OF 1 2 3, of ?pre] 4
  have a: "strip_heredocs (?pre @ ?rest) = strip_heredocs ?pre
      \<and> extractExecutables (?pre @ ?rest) = extractExecutables ?pre"
    by blast
  from unterminated_heredoc [OF 1 2 3, of "js ''cat ''"] 7
  have b: "strip_heredocs (js ''cat '' @ ?rest) = js ''cat ''
      \<and> extractExecutables (js ''cat '' @ ?rest) = extractExecutables (js ''cat '')"
    by blast
  from a b c show ?thesis
    by (simp only: 5 6 8 simp_thms)
qed

text \<open>
  The claim as written fails for a construct inside the body of a terminated heredoc: in
  \<open>cat <<A\n <<B \nA\nrm x\<close> no line consists of the marker word \<open>B\<close>, the first pass removes the
  construct \<open><<B\<close> with the body of \<open><<A\<close>, and \<open>rm\<close> after it is reported; the prefix before \<open><<B\<close>
  gives \<open>["cat"]\<close> only.
\<close>

theorem unterminated_heredoc_counterexample:
  "test heredoc_open (js ''<<B \<newline>A\<newline>rm x'')
   \<and> heredoc_marker (js ''<<B \<newline>A\<newline>rm x'') = js ''B''
   \<and> \<not> terminated (js ''B'') (js '' \<newline>A\<newline>rm x'')
   \<and> extractExecutables (js ''cat <<A\<newline> '' @ js ''<<B \<newline>A\<newline>rm x'')
        = Inr [js ''cat'', js ''rm'']
   \<and> extractExecutables (js ''cat <<A\<newline> '') = Inr [js ''cat'']"
proof (intro conjI)
  show "test heredoc_open (js ''<<B \<newline>A\<newline>rm x'')"
    by (simp add: matchers char_classes js_def)
  show "heredoc_marker (js ''<<B \<newline>A\<newline>rm x'') = js ''B''"
    by (simp add: heredoc_marker_def marker_text_def char_classes js_def)
  show "\<not> terminated (js ''B'') (js '' \<newline>A\<newline>rm x'')"
    by (simp add: char_classes js_def)
  show "extractExecutables (js ''cat <<A\<newline> '' @ js ''<<B \<newline>A\<newline>rm x'')
        = Inr [js ''cat'', js ''rm'']"
    by (simp add: evaluation)
  show "extractExecutables (js ''cat <<A\<newline> '') = Inr [js ''cat'']"
    by (simp add: evaluation)
qed




text \<open>
  C5 (as the code has it). The parts of a segment are walked from the left. A part is passed over
  when it is skipped (assignment, flag, prefix, builtin, keyword, empty or punctuation-only,
  redirection remnant) and also when its basename does not match \<open>^[A-Za-z0-9_-]+$\<close>; the first part
  that is not passed over is the executable, reported by its basename, which is the part after
  its last slash. The segment contributes no identity exactly when it is empty, a marker line,
  or every part is passed over.
\<close>

theorem candidate_selection:
  "(\<exists>r. scan_parts parts 0 = Inr r
      \<and> map_option fst r =
          (case dropWhile (\<lambda>part. skipped part \<or> \<not> test command_name (basename part)) parts of
             [] \<Rightarrow> None
           | part # _ \<Rightarrow> Some (basename part)))
   \<and> (\<forall>part\<in>set (js_split spaces (trim segment)).
         basename part = rev (takeWhile (\<lambda>c. c \<noteq> 47) (rev part)))
   \<and> (segment_identity segment = Inr None \<longleftrightarrow>
         trim segment = [] \<or> test marker_line (trim segment)
         \<or> (\<forall>part\<in>set (js_split spaces (trim segment)).
               skipped part \<or> \<not> test command_name (basename part)))"
proof (intro conjI)
  show "\<exists>r. scan_parts parts 0 = Inr r
      \<and> map_option fst r =
          (case dropWhile (\<lambda>part. skipped part \<or> \<not> test command_name (basename part)) parts of
             [] \<Rightarrow> None
           | part # _ \<Rightarrow> Some (basename part))"
    by (rule scan_parts_first)
  show "\<forall>part\<in>set (js_split spaces (trim segment)).
         basename part = rev (takeWhile (\<lambda>c. c \<noteq> 47) (rev part))"
    by (auto intro: basename_last_slash split_spaces_dots)
  show "segment_identity segment = Inr None \<longleftrightarrow>
         trim segment = [] \<or> test marker_line (trim segment)
         \<or> (\<forall>part\<in>set (js_split spaces (trim segment)).
               skipped part \<or> \<not> test command_name (basename part))"
    by (simp only: segment_identity_pure identity_of_None sum.inject)
qed

theorem candidate_selection_witness:
  "(\<exists>r. scan_parts [js ''./run.sh'', js ''/usr/bin/make'', js ''all''] 0 = Inr r
      \<and> map_option fst r = Some (js ''make''))
   \<and> basename (js ''/usr/bin/make'') = js ''make''
   \<and> segment_identity (js '' ./run.sh -v '') = Inr None"
proof -
  let ?parts = "[js ''./run.sh'', js ''/usr/bin/make'', js ''all'']"
  let ?segment = "js '' ./run.sh /usr/bin/make all ''"
  have parts: "js_split spaces (trim ?segment) = ?parts"
    by (simp add: scanning matchers char_classes js_def)
  have rest: "dropWhile (\<lambda>part. skipped part \<or> \<not> test command_name (basename part)) ?parts
      = [js ''/usr/bin/make'', js ''all'']"
    by (simp add: scanning matchers char_classes js_def)
  have passed: "\<forall>part\<in>set (js_split spaces (trim (js '' ./run.sh -v ''))).
      skipped part \<or> \<not> test command_name (basename part)"
    by (simp add: scanning matchers char_classes js_def)
  note inst1 = candidate_selection [of ?parts ?segment]
  note inst2 = candidate_selection [of ?parts "js '' ./run.sh -v ''"]
  from inst1 have "\<exists>r. scan_parts ?parts 0 = Inr r
      \<and> map_option fst r = Some (basename (js ''/usr/bin/make''))"
    unfolding rest by simp
  moreover from inst1 have "basename (js ''/usr/bin/make'')
      = rev (takeWhile (\<lambda>c. c \<noteq> 47) (rev (js ''/usr/bin/make'')))"
    unfolding parts by simp
  then have "basename (js ''/usr/bin/make'') = js ''make''"
    by (simp add: js_def)
  moreover from inst2 passed have "segment_identity (js '' ./run.sh -v '') = Inr None"
    by blast
  ultimately show ?thesis
    by simp
qed

text \<open>
  The claim as written fails: in \<open>./run.sh build\<close> the first remaining part is \<open>./run.sh\<close>, its basename
  \<open>run.sh\<close> does not match, and the later part \<open>build\<close> is reported.
\<close>

theorem candidate_selection_counterexample:
  "\<not> skipped (js ''./run.sh'')
   \<and> basename (js ''./run.sh'') = js ''run.sh''
   \<and> \<not> test command_name (js ''run.sh'')
   \<and> extractExecutables (js ''./run.sh build'') = Inr [js ''build'']"
proof -
  have "\<not> skipped (js ''./run.sh'')"
    by (simp add: scanning matchers char_classes js_def)
  moreover have "basename (js ''./run.sh'') = js ''run.sh''"
    by (simp add: scanning matchers char_classes js_def)
  moreover have "\<not> test command_name (js ''run.sh'')"
    by (simp add: matchers char_classes js_def)
  ultimately show ?thesis
    using eval_script by simp
qed

text \<open>
  C6 (as the code has it). On \<open>for f in *.txt; do cat "$f"; done\<close> the extractor returns
  \<open>["f", "cat"]\<close>: the keywords \<open>for\<close>, \<open>in\<close>, \<open>do\<close> and \<open>done\<close> are skipped, and the loop variable \<open>f\<close>, the
  first part of its segment that is left, is reported before \<open>cat\<close>.
\<close>

theorem for_loop_identities:
  "extractExecutables (js ''for f in *.txt; do cat '' @ [34] @ js ''$f'' @ [34] @ js ''; done'')
     = Inr [js ''f'', js ''cat'']
   \<and> skipped (js ''for'') \<and> skipped (js ''in'') \<and> skipped (js ''do'') \<and> skipped (js ''done'')
   \<and> first_executable [js ''for'', js ''f'', js ''in'', js ''*.txt''] = Some (js ''f'', None)"
proof -
  have "skipped (js ''for'')" "skipped (js ''in'')" "skipped (js ''do'')" "skipped (js ''done'')"
    by (simp_all add: skipped_def SHELL_KEYWORDS_TO_SKIP_def)
  moreover have "first_executable [js ''for'', js ''f'', js ''in'', js ''*.txt''] = Some (js ''f'', None)"
    by (simp add: scanning matchers char_classes js_def)
  ultimately show ?thesis
    using eval_for_loop by simp
qed

text \<open>The claim as written fails: the result is not \<open>["cat"]\<close>.\<close>

theorem for_loop_counterexample:
  "extractExecutables (js ''for f in *.txt; do cat '' @ [34] @ js ''$f'' @ [34] @ js ''; done'')
     \<noteq> Inr [js ''cat'']"
  using eval_for_loop by (simp add: js_def)

text \<open>
  C7 (as the code has it). On \<open>cat <<'EOF'\nsome text with rm -rf /\nEOF\necho done\<close> the extractor
  returns \<open>["cat", "echo"]\<close>: the heredoc is removed from \<open><<\<close> to its terminator, so \<open>rm\<close> is not
  reported; \<open>cat\<close> before it and \<open>echo\<close> after it are kept.
\<close>

theorem heredoc_identities:
  "extractExecutables (js ''cat <<'' @ [39] @ js ''EOF'' @ [39]
       @ js ''\<newline>some text with rm -rf /\<newline>EOF\<newline>echo done'')
     = Inr [js ''cat'', js ''echo'']
   \<and> clean (js ''cat <<'' @ [39] @ js ''EOF'' @ [39]
       @ js ''\<newline>some text with rm -rf /\<newline>EOF\<newline>echo done'')
     = js ''cat \<newline>echo done''"
proof -
  have "clean (js ''cat <<'' @ [39] @ js ''EOF'' @ [39]
       @ js ''\<newline>some text with rm -rf /\<newline>EOF\<newline>echo done'')
     = js ''cat \<newline>echo done''"
    by (simp add: passes matchers char_classes js_def)
  then show ?thesis
    using eval_heredoc by simp
qed

text \<open>The claim as written fails: the result is not \<open>["echo"]\<close>.\<close>

theorem heredoc_counterexample:
  "extractExecutables (js ''cat <<'' @ [39] @ js ''EOF'' @ [39]
       @ js ''\<newline>some text with rm -rf /\<newline>EOF\<newline>echo done'')
     \<noteq> Inr [js ''echo'']"
  using eval_heredoc by (simp add: js_def)

text \<open>
  C8. The search for the subcommand walks the parts after the executable, skips those that
  start with \<open>-\<close> or contain \<open>=\<close>, and stops at the first other part: that part is the subcommand
  when it matches \<open>^[A-Za-z0-9_-]+$\<close>, otherwise there is none. The search runs when the basename
  of the first accepted part is one of git, npm, yarn, pnpm, docker, kubectl, and not otherwise.
  With a subcommand the identity is the executable, a space, the subcommand:
  \<open>sudo docker ps -a\<close> gives \<open>["docker ps"]\<close> and \<open>echo hello && npm run build\<close> gives
  \<open>["echo", "npm run"]\<close>.
\<close>

theorem subcommand_identity:
  "find_subcommand parts j =
     Inr (case dropWhile (\<lambda>t. startsWith t (js ''-'') \<or> str_includes t 61) (drop j parts) of
            [] \<Rightarrow> None
          | t # _ \<Rightarrow> if test command_name t then Some t else None)
   \<and> (i < length parts \<and> (\<forall>k<i. \<not> accepted (parts ! k)) \<and> accepted (parts ! i)
        \<and> basename (parts ! i) \<in> set SUBCOMMAND_EXECUTABLES \<longrightarrow>
        scan_parts parts 0 =
          (case find_subcommand parts (i + 1) of
             Inl e \<Rightarrow> Inl e
           | Inr subcommand \<Rightarrow> Inr (Some (basename (parts ! i), subcommand))))
   \<and> (i < length parts \<and> (\<forall>k<i. \<not> accepted (parts ! k)) \<and> accepted (parts ! i)
        \<and> basename (parts ! i) \<notin> set SUBCOMMAND_EXECUTABLES \<longrightarrow>
        scan_parts parts 0 = Inr (Some (basename (parts ! i), None)))
   \<and> (trim segment \<noteq> [] \<and> \<not> test marker_line (trim segment)
        \<and> scan_parts (js_split spaces (trim segment)) 0 = Inr (Some (exec, Some sub)) \<longrightarrow>
        segment_identity segment = Inr (Some (exec @ js '' '' @ sub)))
   \<and> SUBCOMMAND_EXECUTABLES = [js ''git'', js ''npm'', js ''yarn'', js ''pnpm'', js ''docker'', js ''kubectl'']
   \<and> extractExecutables (js ''sudo docker ps -a'') = Inr [js ''docker ps'']
   \<and> extractExecutables (js ''echo hello && npm run build'') = Inr [js ''echo'', js ''npm run'']"
proof (intro conjI impI)
  show "find_subcommand parts j =
     Inr (case dropWhile (\<lambda>t. startsWith t (js ''-'') \<or> str_includes t 61) (drop j parts) of
            [] \<Rightarrow> None
          | t # _ \<Rightarrow> if test command_name t then Some t else None)"
    by (simp only: find_subcommand_drop subcommand_of_dropWhile)
  show "scan_parts parts 0 =
          (case find_subcommand parts (i + 1) of
             Inl e \<Rightarrow> Inl e
           | Inr subcommand \<Rightarrow> Inr (Some (basename (parts ! i), subcommand)))"
    if "i < length parts \<and> (\<forall>k<i. \<not> accepted (parts ! k)) \<and> accepted (parts ! i)
        \<and> basename (parts ! i) \<in> set SUBCOMMAND_EXECUTABLES"
    using that by (intro scan_parts_at(1)) simp_all
  show "scan_parts parts 0 = Inr (Some (basename (parts ! i), None))"
    if "i < length parts \<and> (\<forall>k<i. \<not> accepted (parts ! k)) \<and> accepted (parts ! i)
        \<and> basename (parts ! i) \<notin> set SUBCOMMAND_EXECUTABLES"
    using that by (intro scan_parts_at(2)) simp_all
  show "segment_identity segment = Inr (Some (exec @ js '' '' @ sub))"
    if "trim segment \<noteq> [] \<and> \<not> test marker_line (trim segment)
        \<and> scan_parts (js_split spaces (trim segment)) 0 = Inr (Some (exec, Some sub))"
    using that by (intro segment_identity_sub) simp_all
  show "SUBCOMMAND_EXECUTABLES = [js ''git'', js ''npm'', js ''yarn'', js ''pnpm'', js ''docker'', js ''kubectl'']"
    by (simp add: SUBCOMMAND_EXECUTABLES_def)
  show "extractExecutables (js ''sudo docker ps -a'') = Inr [js ''docker ps'']"
    by (rule eval_docker)
  show "extractExecutables (js ''echo hello && npm run build'') = Inr [js ''echo'', js ''npm run'']"
    by (rule eval_npm)
qed

theorem subcommand_identity_witness:
  "find_subcommand [js ''sudo'', js ''git'', js ''-C'', js ''dir=x'', js ''push'', js ''origin''] 2 = Inr (Some (js ''push''))
   \<and> find_subcommand [js ''git'', js ''-C'', js ''./repo'', js ''push''] 1 = Inr None
   \<and> scan_parts [js ''sudo'', js ''git'', js ''-C'', js ''dir=x'', js ''push'', js ''origin''] 0
        = Inr (Some (js ''git'', Some (js ''push'')))
   \<and> scan_parts [js ''sudo'', js ''ls'', js ''-la''] 0 = Inr (Some (js ''ls'', None))
   \<and> segment_identity (js '' sudo git -C dir=x push origin'') = Inr (Some (js ''git push''))"
proof -
  let ?parts = "[js ''sudo'', js ''git'', js ''-C'', js ''dir=x'', js ''push'', js ''origin'']"
  let ?segment = "js '' sudo git -C dir=x push origin''"
  let ?ls = "[js ''sudo'', js ''ls'', js ''-la'']"
  note inst = subcommand_identity [of ?parts 2 1 ?segment "js ''git''" "js ''push''"]
  have sub: "find_subcommand ?parts 2 = Inr (Some (js ''push''))"
    using inst by (simp add: scanning matchers char_classes js_def)
  have halt: "find_subcommand [js ''git'', js ''-C'', js ''./repo'', js ''push''] 1 = Inr None"
    using subcommand_identity [of "[js ''git'', js ''-C'', js ''./repo'', js ''push'']" 1 0 "[]" "[]" "[]"]
    by (simp add: scanning matchers char_classes js_def)
  have hyp: "(1::nat) < length ?parts \<and> (\<forall>k<1. \<not> accepted (?parts ! k)) \<and> accepted (?parts ! 1)
      \<and> basename (?parts ! 1) \<in> set SUBCOMMAND_EXECUTABLES"
    by (simp add: scanning matchers char_classes js_def)
  have base: "basename (?parts ! 1) = js ''git''"
    by (simp add: scanning matchers char_classes js_def)
  from inst hyp have "scan_parts ?parts 0 =
          (case find_subcommand ?parts (1 + 1) of
             Inl e \<Rightarrow> Inl e
           | Inr subcommand \<Rightarrow> Inr (Some (basename (?parts ! 1), subcommand)))"
    by blast
  moreover have "find_subcommand ?parts (1 + 1) = Inr (Some (js ''push''))"
    using sub by (simp add: numeral_2_eq_2)
  ultimately have scan: "scan_parts ?parts 0 = Inr (Some (js ''git'', Some (js ''push'')))"
    using base by simp
  have hyp_ls: "(1::nat) < length ?ls \<and> (\<forall>k<1. \<not> accepted (?ls ! k)) \<and> accepted (?ls ! 1)
      \<and> basename (?ls ! 1) \<notin> set SUBCOMMAND_EXECUTABLES"
    by (simp add: scanning matchers char_classes js_def)
  have base_ls: "basename (?ls ! 1) = js ''ls''"
    by (simp add: scanning matchers char_classes js_def)
  from subcommand_identity [of ?ls 0 1 "[]" "[]" "[]"] hyp_ls
  have "scan_parts ?ls 0 = Inr (Some (basename (?ls ! 1), None))"
    by blast
  then have scan_ls: "scan_parts ?ls 0 = Inr (Some (js ''ls'', None))"
    using base_ls by simp
  have seg: "trim ?segment \<noteq> [] \<and> \<not> test marker_line (trim ?segment)"
    by (simp add: scanning matchers char_classes js_def)
  have parts: "js_split spaces (trim ?segment) = ?parts"
    by (simp add: scanning matchers char_classes js_def)
  from inst seg scan have "segment_identity ?segment = Inr (Some (js ''git'' @ js '' '' @ js ''push''))"
    unfolding parts by blast
  then have "segment_identity ?segment = Inr (Some (js ''git push''))"
    by (simp add: js_def)
  with sub halt scan scan_ls show ?thesis
    by simp
qed

text \<open>
  C9 (as the code has it). The quote passes run after the heredoc passes, in the order double
  quote, single quote, back-tick. A pass replaces a span of its quote by the empty pair when an
  even number of its quotes stands before the span and none inside it. After a text in which no
  pass ends inside a span, the three passes together replace by the empty pair: a double-quoted
  span without a double quote inside; a single-quoted span with an even number of double quotes
  and no single quote inside; a back-tick span with an even number of double quotes inside, an
  even number of single quotes left inside by the double-quote pass, and no back-tick inside.
  When the input holds no heredoc start, the result is that of the input with the span emptied,
  so that a command name that stands only inside the span is not reported; this holds for such
  a double-quoted span after an even number of double quotes; for such a single-quoted span
  after an even number of double quotes and, in the text that the double-quote pass leaves, an
  even number of single quotes; and for such a back-tick span after a text in which no pass ends
  inside a span. \<open>echo "it's"; rm 'x'\<close> gives \<open>["echo", "rm"]\<close>: the single quote inside the
  double-quoted span is gone before the single-quote pass runs.
  \<open>git commit -m 'fix: handles <<EOF markers'\<close> gives \<open>["git commit"]\<close>; there the heredoc pass, which
  runs first, removes the text from \<open><<\<close> to the end, the closing quote included.
\<close>

theorem quoted_spans:
  "(even (count_list pre q) \<and> q \<notin> set body \<longrightarrow>
      quote_pass q (pre @ q # body @ q # post) = quote_pass q pre @ [q, q] @ quote_pass q post)
   \<and> (balanced pre \<and> 34 \<notin> set body \<longrightarrow>
        strip_strings (pre @ 34 # body @ 34 # post) = strip_strings pre @ [34, 34] @ strip_strings post)
   \<and> (balanced pre \<and> even (count_list body 34) \<and> 39 \<notin> set body \<longrightarrow>
        strip_strings (pre @ 39 # body @ 39 # post) = strip_strings pre @ [39, 39] @ strip_strings post)
   \<and> (balanced pre \<and> even (count_list body 34) \<and> even (count_list (quote_pass 34 body) 39)
        \<and> 96 \<notin> set body \<longrightarrow>
        strip_strings (pre @ 96 # body @ 96 # post) = strip_strings pre @ [96, 96] @ strip_strings post)
   \<and> (even (count_list pre 34) \<and> 34 \<notin> set body \<and> no_heredoc (pre @ 34 # body @ 34 # post) \<longrightarrow>
        extractExecutables (pre @ 34 # body @ 34 # post) = extractExecutables (pre @ 34 # 34 # post))
   \<and> (even (count_list pre 34) \<and> even (count_list (quote_pass 34 pre) 39)
        \<and> even (count_list body 34) \<and> 39 \<notin> set body
        \<and> no_heredoc (pre @ 39 # body @ 39 # post) \<longrightarrow>
        extractExecutables (pre @ 39 # body @ 39 # post) = extractExecutables (pre @ 39 # 39 # post))
   \<and> (balanced pre \<and> even (count_list body 34) \<and> even (count_list (quote_pass 34 body) 39)
        \<and> 96 \<notin> set body \<and> no_heredoc (pre @ 96 # body @ 96 # post) \<longrightarrow>
        extractExecutables (pre @ 96 # body @ 96 # post) = extractExecutables (pre @ 96 # 96 # post))
   \<and> extractExecutables (js ''echo '' @ [34] @ js ''it'' @ [39] @ js ''s'' @ [34] @ js ''; rm '' @ [39] @ js ''x'' @ [39])
        = Inr [js ''echo'', js ''rm'']
   \<and> extractExecutables (js ''git commit -m '' @ [39] @ js ''fix: handles <<EOF markers'' @ [39])
        = Inr [js ''git commit'']
   \<and> clean (js ''git commit -m '' @ [39] @ js ''fix: handles <<EOF markers'' @ [39])
        = js ''git commit -m '' @ [39] @ js ''fix: handles ''"
proof (intro conjI impI)
  show "quote_pass q (pre @ q # body @ q # post) = quote_pass q pre @ [q, q] @ quote_pass q post"
    if "even (count_list pre q) \<and> q \<notin> set body"
    using that by (intro quote_pass_span_even) simp_all
  show "strip_strings (pre @ 34 # body @ 34 # post) = strip_strings pre @ [34, 34] @ strip_strings post"
    if "balanced pre \<and> 34 \<notin> set body"
    using that by (intro strip_strings_span_double) simp_all
  show "strip_strings (pre @ 39 # body @ 39 # post) = strip_strings pre @ [39, 39] @ strip_strings post"
    if "balanced pre \<and> even (count_list body 34) \<and> 39 \<notin> set body"
    using that by (intro strip_strings_span_single) simp_all
  show "strip_strings (pre @ 96 # body @ 96 # post) = strip_strings pre @ [96, 96] @ strip_strings post"
    if "balanced pre \<and> even (count_list body 34) \<and> even (count_list (quote_pass 34 body) 39)
        \<and> 96 \<notin> set body"
    using that by (intro span_backtick) simp_all
  show "extractExecutables (pre @ 34 # body @ 34 # post) = extractExecutables (pre @ 34 # 34 # post)"
    if "even (count_list pre 34) \<and> 34 \<notin> set body \<and> no_heredoc (pre @ 34 # body @ 34 # post)"
    using that by (intro extract_span_double) simp_all
  show "extractExecutables (pre @ 39 # body @ 39 # post) = extractExecutables (pre @ 39 # 39 # post)"
    if "even (count_list pre 34) \<and> even (count_list (quote_pass 34 pre) 39)
        \<and> even (count_list body 34) \<and> 39 \<notin> set body
        \<and> no_heredoc (pre @ 39 # body @ 39 # post)"
    using that by (intro extract_span_single) simp_all
  show "extractExecutables (pre @ 96 # body @ 96 # post) = extractExecutables (pre @ 96 # 96 # post)"
    if "balanced pre \<and> even (count_list body 34) \<and> even (count_list (quote_pass 34 body) 39)
        \<and> 96 \<notin> set body \<and> no_heredoc (pre @ 96 # body @ 96 # post)"
    using that by (intro extract_span_backtick) simp_all
  show "extractExecutables (js ''echo '' @ [34] @ js ''it'' @ [39] @ js ''s'' @ [34] @ js ''; rm '' @ [39] @ js ''x'' @ [39])
        = Inr [js ''echo'', js ''rm'']"
    by (rule eval_order)
  show "extractExecutables (js ''git commit -m '' @ [39] @ js ''fix: handles <<EOF markers'' @ [39])
        = Inr [js ''git commit'']"
    by (rule eval_commit)
  show "clean (js ''git commit -m '' @ [39] @ js ''fix: handles <<EOF markers'' @ [39])
        = js ''git commit -m '' @ [39] @ js ''fix: handles ''"
    by (rule eval_commit_clean)
qed

theorem quoted_spans_witness:
  "quote_pass 39 (js ''echo '' @ 39 # js ''rm -rf'' @ 39 # js '' | wc'')
     = js ''echo '' @ [39, 39] @ js '' | wc''
   \<and> strip_strings ((js ''echo '' @ 34 # js ''a'' @ 34 # js '' '') @ 39 # (js ''say '' @ 34 # js ''rm -rf'' @ [34]) @ 39 # js '' | wc'')
     = js ''echo '' @ [34, 34] @ js '' '' @ [39, 39] @ js '' | wc''
   \<and> extractExecutables (js ''echo '' @ 34 # (js ''it'' @ 39 # js ''s'') @ 34 # (js ''; rm '' @ 39 # js ''x'' @ [39]))
     = Inr [js ''echo'', js ''rm'']
   \<and> extractExecutables ((js ''echo '' @ 34 # js ''a'' @ 34 # js '' '') @ 39 # (js ''say '' @ 34 # js ''rm -rf'' @ [34]) @ 39 # js '' | wc'')
     = Inr [js ''echo'', js ''wc'']
   \<and> extractExecutables (js ''echo '' @ 96 # (js ''rm '' @ 39 # js ''x'' @ [39]) @ 96 # js ''; ls'')
     = Inr [js ''echo'', js ''ls'']"
proof -
  let ?pre = "js ''echo '' @ 34 # js ''a'' @ 34 # js '' ''"
  let ?say = "js ''say '' @ 34 # js ''rm -rf'' @ [34]"
  let ?rm = "js ''rm '' @ 39 # js ''x'' @ [39]"
  note i1 = quoted_spans [where q = 39 and pre = "js ''echo ''" and body = "js ''rm -rf''" and post = "js '' | wc''"]
  note i2 = quoted_spans [where q = 39 and pre = ?pre and body = ?say and post = "js '' | wc''"]
  note i3 = quoted_spans [where q = 34 and pre = "js ''echo ''" and body = "js ''it'' @ 39 # js ''s''"
      and post = "js ''; rm '' @ 39 # js ''x'' @ [39]"]
  note i4 = quoted_spans [where q = 96 and pre = "js ''echo ''" and body = ?rm and post = "js ''; ls''"]
  have h1: "even (count_list (js ''echo '') 39)" "39 \<notin> set (js ''rm -rf'')"
    by (simp_all add: js_def)
  have p1: "quote_pass 39 (js ''echo '') = js ''echo ''" "quote_pass 39 (js '' | wc'') = js '' | wc''"
    by (simp_all add: matchers js_def)
  have h2: "balanced ?pre" "even (count_list ?say 34)" "39 \<notin> set ?say"
    "even (count_list ?pre 34)" "even (count_list (quote_pass 34 ?pre) 39)"
    "no_heredoc (?pre @ 39 # ?say @ 39 # js '' | wc'')"
    by (simp_all add: balanced_def matchers heredoc_start_def js_def)
  have p2: "strip_strings ?pre = js ''echo '' @ [34, 34] @ js '' ''" "strip_strings (js '' | wc'') = js '' | wc''"
    by (simp_all add: strip_strings_def matchers js_def)
  have e2: "extractExecutables (?pre @ 39 # 39 # js '' | wc'') = Inr [js ''echo'', js ''wc'']"
    by (simp add: evaluation)
  have h3: "even (count_list (js ''echo '') 34)" "34 \<notin> set (js ''it'' @ 39 # js ''s'')"
    "no_heredoc (js ''echo '' @ 34 # (js ''it'' @ 39 # js ''s'') @ 34 # (js ''; rm '' @ 39 # js ''x'' @ [39]))"
    by (simp_all add: heredoc_start_def js_def)
  have e3: "extractExecutables (js ''echo '' @ 34 # 34 # (js ''; rm '' @ 39 # js ''x'' @ [39])) = Inr [js ''echo'', js ''rm'']"
    by (simp add: evaluation)
  have h4: "balanced (js ''echo '')" "even (count_list ?rm 34)" "even (count_list (quote_pass 34 ?rm) 39)"
    "96 \<notin> set ?rm" "no_heredoc (js ''echo '' @ 96 # ?rm @ 96 # js ''; ls'')"
    by (simp_all add: balanced_def matchers heredoc_start_def js_def)
  have e4: "extractExecutables (js ''echo '' @ 96 # 96 # js ''; ls'') = Inr [js ''echo'', js ''ls'']"
    by (simp add: evaluation)
  from i1 h1 have "quote_pass 39 (js ''echo '' @ 39 # js ''rm -rf'' @ 39 # js '' | wc'')
      = quote_pass 39 (js ''echo '') @ [39, 39] @ quote_pass 39 (js '' | wc'')"
    by blast
  then have 1: "quote_pass 39 (js ''echo '' @ 39 # js ''rm -rf'' @ 39 # js '' | wc'')
     = js ''echo '' @ [39, 39] @ js '' | wc''"
    by (simp only: p1)
  from i2 h2 have "strip_strings (?pre @ 39 # ?say @ 39 # js '' | wc'')
     = strip_strings ?pre @ [39, 39] @ strip_strings (js '' | wc'')"
    by blast
  then have 2: "strip_strings (?pre @ 39 # ?say @ 39 # js '' | wc'')
     = js ''echo '' @ [34, 34] @ js '' '' @ [39, 39] @ js '' | wc''"
    by (simp only: p2 append_assoc)
  from i3 h3 have "extractExecutables (js ''echo '' @ 34 # (js ''it'' @ 39 # js ''s'') @ 34 # (js ''; rm '' @ 39 # js ''x'' @ [39]))
     = extractExecutables (js ''echo '' @ 34 # 34 # (js ''; rm '' @ 39 # js ''x'' @ [39]))"
    by blast
  then have 3: "extractExecutables (js ''echo '' @ 34 # (js ''it'' @ 39 # js ''s'') @ 34 # (js ''; rm '' @ 39 # js ''x'' @ [39]))
     = Inr [js ''echo'', js ''rm'']"
    by (simp only: e3)
  from i2 h2 have "extractExecutables (?pre @ 39 # ?say @ 39 # js '' | wc'')
     = extractExecutables (?pre @ 39 # 39 # js '' | wc'')"
    by blast
  then have 4: "extractExecutables (?pre @ 39 # ?say @ 39 # js '' | wc'') = Inr [js ''echo'', js ''wc'']"
    by (simp only: e2)
  from i4 h4 have "extractExecutables (js ''echo '' @ 96 # ?rm @ 96 # js ''; ls'')
     = extractExecutables (js ''echo '' @ 96 # 96 # js ''; ls'')"
    by blast
  then have 5: "extractExecutables (js ''echo '' @ 96 # ?rm @ 96 # js ''; ls'') = Inr [js ''echo'', js ''ls'']"
    by (simp only: e4)
  from 1 2 3 4 5 show ?thesis
    by blast
qed

text \<open>
  The claim as written fails: the heredoc passes run before the quote passes. In
  \<open>echo '; rm x <<EOF'\<close> the text from \<open><<\<close> on is removed with the closing quote, the span is no longer
  balanced, and \<open>rm\<close>, which stands only inside the quoted span, is reported.
\<close>

theorem quoted_spans_counterexample:
  "extractExecutables (js ''echo '' @ [39] @ js ''; rm x <<EOF'' @ [39]) = Inr [js ''echo'', js ''rm'']"
  by (simp add: evaluation)




end
